theory Spec2Isabelle
  imports Complex_Main
begin

section \<open>ofxImageSequence: data model\<close>

text \<open>
  The C++ class \<open>ofxImageSequence\<close> (src/ofxImageSequence.cpp) is embedded function by
  function. Every member function takes the object as a record and returns the updated
  record. Where the C++ has undefined behaviour (signed overflow, an index outside a
  vector, an integer division by zero, a write past a buffer, a conversion of a
  \<open>float\<close> outside the range of \<open>int\<close>) the model returns
  \<open>Inl\<close> of the kind of undefined behaviour, and a run has no successor state. The
  pattern load is also followed past the overflow of its line 80, as a build executes it
  that wraps \<open>int\<close> around.
\<close>

datatype ub = SignedOverflow | DivideByZero | VectorOutOfRange | BufferOverrun | FloatToInt

text \<open>
  \<open>ofPixels\<close>: a pixel buffer is either unallocated (the default-constructed
  \<open>ofPixels()\<close>, whose width and height are 0) or holds decoded data.
\<close>

datatype ofPixels = Unallocated | Pixels nat nat "nat list"

fun isAllocated :: "ofPixels \<Rightarrow> bool" where
  "isAllocated Unallocated = False"
| "isAllocated (Pixels w h d) = True"

fun getWidthPx :: "ofPixels \<Rightarrow> int" where
  "getWidthPx Unallocated = 0"
| "getWidthPx (Pixels w h d) = int w"

fun getHeightPx :: "ofPixels \<Rightarrow> int" where
  "getHeightPx Unallocated = 0"
| "getHeightPx (Pixels w h d) = int h"

text \<open>
  The collaborators outside the class: the image decoder behind \<open>ofLoadImage\<close>, and the
  file system behind \<open>ofFile::exists\<close> and \<open>ofDirectory::listDir\<close> (the paths of a
  folder under an extension filter, the empty string meaning no filter, in the order in
  which \<open>getPath\<close> returns them, after the sort where the code sorts). They do not change
  during an execution.
  \<open>sprintf_other\<close> is what the C library's \<open>sprintf\<close> writes for a format string
  and one \<open>int\<close> argument, for the format strings that \<open>imagename\<close> below does not
  interpret itself.
\<close>

record world =
  decodeFile :: "string \<Rightarrow> (nat \<times> nat \<times> nat list) option"
  folderExists :: "string \<Rightarrow> bool"
  listDir :: "string \<Rightarrow> string \<Rightarrow> string list"
  sprintf_other :: "string \<Rightarrow> int \<Rightarrow> ub + string"

text \<open>
  The program counter of the background thread running \<open>threadedFunction\<close>, named by
  the source line about to execute. \<open>Loop i\<close> is the head of iteration \<open>i\<close> of the
  loop of \<open>preloadAllFrames\<close> (lines 261 to 268), \<open>Decode i\<close> its line 270.
\<close>

datatype tpc = NotRunning | L185 | L186 | L188 | L190 | L195 | L256 | Loop nat | Decode nat | L203

text \<open>
  The object. \<open>texture\<close> holds what was last passed to \<open>texture.loadData\<close>. Three
  fields are not members of the class but observations of its effects: \<open>uploads\<close> counts
  the calls of \<open>texture.loadData\<close>, \<open>errors\<close> is the list of \<open>ofLogError\<close> lines
  (origin, message), \<open>listening\<close> says that \<open>updateThreadedLoad\<close> is registered with
  the update event. \<open>pc\<close> is the state of the thread.
\<close>

record ofxImageSequence =
  sequence :: "ofPixels list"
  filenames :: "string list"
  loaded :: bool
  loading :: bool
  useThread :: bool
  cancelLoading :: bool
  frameRate :: real
  lastFrameLoaded :: int
  currentFrame :: int
  maxFrames :: int
  width :: int
  height :: int
  extension :: string
  folderToLoad :: string
  texture :: ofPixels
  uploads :: nat
  errors :: "(string \<times> string) list"
  listening :: bool
  pc :: tpc

definition ofLogError :: "string \<Rightarrow> string \<Rightarrow> ofxImageSequence \<Rightarrow> ofxImageSequence" where
  "ofLogError origin msg s = s\<lparr>errors := errors s @ [(origin, msg)]\<rparr>"

text \<open>
  The constructor (lines 46 to 56). The strings and vectors it does not mention are
  empty; \<open>width\<close> and \<open>height\<close>, which it leaves uninitialised, are taken as 0.
\<close>

definition constructor :: ofxImageSequence where
  "constructor = \<lparr>sequence = [], filenames = [], loaded = False, loading = False,
     useThread = False, cancelLoading = False, frameRate = 30, lastFrameLoaded = - 1,
     currentFrame = 0, maxFrames = 0, width = 0, height = 0, extension = [],
     folderToLoad = [], texture = Unallocated, uploads = 0, errors = [],
     listening = False, pc = NotRunning\<rparr>"

section \<open>Printing integers\<close>

text \<open>
  The decimal text of an \<open>int\<close>, as \<open>operator<<\<close> of a stream and \<open>%d\<close> of
  \<open>sprintf\<close> write it.
\<close>

definition digit :: "nat \<Rightarrow> char" where
  "digit d = ''0123456789'' ! d"

fun show_nat :: "nat \<Rightarrow> string" where
  "show_nat n =
     (if n < 10 then [digit n]
      else show_nat (n div 10) @ [digit (n mod 10)])"

declare show_nat.simps [simp del]

definition show_int :: "int \<Rightarrow> string" where
  "show_int i = (if i < 0 then CHR ''-'' # show_nat (nat (- i)) else show_nat (nat i))"

section \<open>Decoding and presenting a frame\<close>

text \<open>
  \<open>ofLoadImage(pix, path)\<close>: on success the buffer holds the decoded image and the call
  returns true; on failure the buffer is left as it was and the call returns false.
\<close>

definition ofLoadImage :: "world \<Rightarrow> ofPixels \<Rightarrow> string \<Rightarrow> bool \<times> ofPixels" where
  "ofLoadImage w pix path =
     (case decodeFile w path of
        None \<Rightarrow> (False, pix)
      | Some (wd, ht, d) \<Rightarrow> (True, Pixels wd ht d))"

text \<open>
  \<open>loadFrame\<close> (lines 276 to 300). \<open>sequence[imageIndex]\<close> is guarded by the bounds
  test of line 282; \<open>filenames[imageIndex]\<close> is not, and is undefined behaviour when
  the two vectors differ in length.
\<close>

definition loadFrame :: "world \<Rightarrow> ofxImageSequence \<Rightarrow> int \<Rightarrow> ub + ofxImageSequence" where
  "loadFrame w s imageIndex =
     (if lastFrameLoaded s = imageIndex then Inr s
      else if imageIndex < 0 \<or> imageIndex \<ge> int (length (sequence s)) then
        Inr (ofLogError ''ofxImageSequence::loadFrame''
               (''Calling a frame out of bounds: '' @ show_int imageIndex) s)
      else if \<not> nat imageIndex < length (filenames s) then Inl VectorOutOfRange
      else
        let i = nat imageIndex;
            s1 = (if \<not> isAllocated (sequence s ! i)
                  then s\<lparr>sequence := (sequence s)
                          [i := snd (ofLoadImage w (sequence s ! i) (filenames s ! i))]\<rparr>
                  else s)
        in if \<not> isAllocated (sequence s1 ! i) then
             Inr (ofLogError ''ofxImageSequence::loadFrame''
                    (''Pixels not allocated: '' @ filenames s1 ! i) s1)
           else
             Inr (s1\<lparr>texture := sequence s1 ! i, uploads := uploads s1 + 1,
                      lastFrameLoaded := imageIndex\<rparr>))"

text \<open>
  \<open>getTotalFrames\<close> (lines 432 to 435) converts the size to \<open>int\<close>; the vectors are
  taken to hold fewer than \<open>2^31\<close> entries.
\<close>

definition getTotalFrames :: "ofxImageSequence \<Rightarrow> int" where
  "getTotalFrames s = int (length (sequence s))"

text \<open>
  The C++ remainder truncates towards zero; with a zero divisor it is undefined.
\<close>

definition c_rem :: "int \<Rightarrow> int \<Rightarrow> ub + int" where
  "c_rem a b = (if b = 0 then Inl DivideByZero else Inr (sgn a * (\<bar>a\<bar> mod \<bar>b\<bar>)))"

text \<open>\<open>setFrame\<close> (lines 387 to 403).\<close>

definition setFrame :: "world \<Rightarrow> ofxImageSequence \<Rightarrow> int \<Rightarrow> ub + ofxImageSequence" where
  "setFrame w s index =
     (if \<not> loaded s then
        Inr (ofLogError ''ofxImageSequence::setFrame''
               ''Calling getFrame on unitialized image sequence.'' s)
      else if index < 0 then
        Inr (ofLogError ''ofxImageSequence::setFrame'' ''Asking for negative index.'' s)
      else
        case c_rem index (getTotalFrames s) of
          Inl u \<Rightarrow> Inl u
        | Inr index' \<Rightarrow>
            (case loadFrame w s index' of
               Inl u \<Rightarrow> Inl u
             | Inr s1 \<Rightarrow> Inr (s1\<lparr>currentFrame := index'\<rparr>)))"

section \<open>Resolving the file names of a folder\<close>

text \<open>
  \<open>preloadAllFilenames\<close> (lines 145 to 180). The listing is taken under the extension
  filter; \<open>numFiles\<close> is its size, capped by \<open>maxFrames\<close> when that is positive. The loop
  of lines 175 to 178 pushes the first \<open>numFiles\<close> paths and as many empty buffers.
\<close>

definition preloadAllFilenames :: "world \<Rightarrow> ofxImageSequence \<Rightarrow> bool \<times> ofxImageSequence" where
  "preloadAllFilenames w s =
     (if \<not> folderExists w (folderToLoad s) then
        (False, ofLogError ''ofxImageSequence::loadSequence''
                  (''Could not find folder '' @ folderToLoad s) s)
      else
        let dir = listDir w (extension s) (folderToLoad s);
            numFiles = (if maxFrames s > 0 then min (int (length dir)) (maxFrames s)
                        else int (length dir))
        in if numFiles = 0 then
             (False, ofLogError ''ofxImageSequence::loadSequence''
                       (''No image files found in '' @ folderToLoad s) s)
           else
             (True, s\<lparr>filenames := filenames s @ take (nat numFiles) dir,
                       sequence := sequence s @ replicate (nat numFiles) Unallocated\<rparr>))"

text \<open>\<open>completeLoading\<close> (lines 128 to 143).\<close>

definition completeLoading :: "world \<Rightarrow> ofxImageSequence \<Rightarrow> ub + ofxImageSequence" where
  "completeLoading w s =
     (if length (sequence s) = 0 then
        Inr (ofLogError ''ofxImageSequence::completeLoading''
               ''load failed with empty image sequence'' s)
      else
        case loadFrame w (s\<lparr>loaded := True, lastFrameLoaded := - 1\<rparr>) 0 of
          Inl u \<Rightarrow> Inl u
        | Inr s1 \<Rightarrow>
            (case sequence s1 of
               [] \<Rightarrow> Inl VectorOutOfRange
             | p # ps \<Rightarrow> Inr (s1\<lparr>width := getWidthPx p, height := getHeightPx p\<rparr>)))"

section \<open>Decoding every frame\<close>

text \<open>
  Lines 270 to 272, the body of the loop of \<open>preloadAllFrames\<close> after the cancellation
  test: decode slot \<open>i\<close> from its file and log a failure.
\<close>

definition decode_slot :: "world \<Rightarrow> ofxImageSequence \<Rightarrow> nat \<Rightarrow> ub + ofxImageSequence" where
  "decode_slot w s i =
     (if \<not> i < length (sequence s) \<or> \<not> i < length (filenames s) then Inl VectorOutOfRange
      else
        let r = ofLoadImage w (sequence s ! i) (filenames s ! i);
            s1 = s\<lparr>sequence := (sequence s)[i := snd r]\<rparr>
        in if \<not> fst r then
             Inr (ofLogError ''ofxImageSequence::loadFrame''
                    (''Image failed to load: '' @ filenames s ! i) s1)
           else Inr s1)"

text \<open>
  The loop of \<open>preloadAllFrames\<close> (lines 261 to 273) from iteration \<open>i\<close> on, run without
  interruption; \<open>ofSleepMillis\<close> changes nothing in the object.
\<close>

function preloadAllFrames_loop ::
  "world \<Rightarrow> ofxImageSequence \<Rightarrow> nat \<Rightarrow> ub + ofxImageSequence" where
  "preloadAllFrames_loop w s i =
     (if i < length (sequence s) then
        (if useThread s \<and> cancelLoading s then Inr s
         else case decode_slot w s i of
                Inl u \<Rightarrow> Inl u
              | Inr s1 \<Rightarrow> preloadAllFrames_loop w s1 (i + 1))
      else Inr s)"
  by pat_completeness auto
termination
proof (relation "measure (\<lambda>(w, s, i). length (sequence s) - i)")
  show "wf (measure (\<lambda>(w, s, i). length (sequence s) - i))" by simp
next
  fix w :: world and s s1 :: ofxImageSequence and i :: nat
  assume "i < length (sequence s)" and "decode_slot w s i = Inr s1"
  then show "((w, s1, i + 1), (w, s, i)) \<in> measure (\<lambda>(w, s, i). length (sequence s) - i)"
    by (auto simp: decode_slot_def ofLogError_def Let_def split: if_splits)
qed

declare preloadAllFrames_loop.simps [simp del]

text \<open>\<open>preloadAllFrames\<close> (lines 254 to 274), called as a whole.\<close>

definition preloadAllFrames :: "world \<Rightarrow> ofxImageSequence \<Rightarrow> ub + ofxImageSequence" where
  "preloadAllFrames w s =
     (if length (sequence s) = 0 then
        Inr (ofLogError ''ofxImageSequence::loadFrame''
               ''Calling preloadAllFrames on unitialized image sequence.'' s)
      else preloadAllFrames_loop w s 0)"

section \<open>The background thread\<close>

text \<open>
  \<open>threadedFunction\<close> (lines 182 to 204) runs beside the owner of the object. One step
  of the thread executes the statement at its program counter; the owner's calls happen
  between steps. Inside \<open>preloadAllFrames\<close> the step \<open>Loop i\<close> is the loop test with the
  sleep and the cancellation test of lines 263 to 268, the step \<open>Decode i\<close> is
  \<open>decode_slot\<close>. A \<open>return\<close> from \<open>preloadAllFrames\<close> continues at line 203.
\<close>

definition thread_step :: "world \<Rightarrow> ofxImageSequence \<Rightarrow> ub + ofxImageSequence" where
  "thread_step w s =
     (case pc s of
        NotRunning \<Rightarrow> Inr s
      | L185 \<Rightarrow> Inr (s\<lparr>loading := True, pc := L186\<rparr>)
      | L186 \<Rightarrow> Inr (s\<lparr>cancelLoading := False, pc := L188\<rparr>)
      | L188 \<Rightarrow> Inr (s\<lparr>listening := True, pc := L190\<rparr>)
      | L190 \<Rightarrow>
          (case preloadAllFilenames w s of
             (False, s1) \<Rightarrow> Inr (s1\<lparr>loading := False, pc := NotRunning\<rparr>)
           | (True, s1) \<Rightarrow> Inr (s1\<lparr>pc := L195\<rparr>))
      | L195 \<Rightarrow>
          (if cancelLoading s
           then Inr (s\<lparr>loading := False, cancelLoading := False, pc := NotRunning\<rparr>)
           else Inr (s\<lparr>pc := L256\<rparr>))
      | L256 \<Rightarrow>
          (if length (sequence s) = 0 then
             Inr ((ofLogError ''ofxImageSequence::loadFrame''
                     ''Calling preloadAllFrames on unitialized image sequence.'' s)
                  \<lparr>pc := L203\<rparr>)
           else Inr (s\<lparr>pc := Loop 0\<rparr>))
      | Loop i \<Rightarrow>
          (if i < length (sequence s) then
             (if useThread s \<and> cancelLoading s then Inr (s\<lparr>pc := L203\<rparr>)
              else Inr (s\<lparr>pc := Decode i\<rparr>))
           else Inr (s\<lparr>pc := L203\<rparr>))
      | Decode i \<Rightarrow>
          (case decode_slot w s i of
             Inl u \<Rightarrow> Inl u
           | Inr s1 \<Rightarrow> Inr (s1\<lparr>pc := Loop (i + 1)\<rparr>))
      | L203 \<Rightarrow> Inr (s\<lparr>loading := False, pc := NotRunning\<rparr>))"

text \<open>Running the thread for at most \<open>n\<close> steps.\<close>

fun run_thread :: "world \<Rightarrow> nat \<Rightarrow> ofxImageSequence \<Rightarrow> ub + ofxImageSequence" where
  "run_thread w 0 s = Inr s"
| "run_thread w (Suc n) s =
     (case thread_step w s of
        Inl u \<Rightarrow> Inl u
      | Inr s1 \<Rightarrow> run_thread w n s1)"

text \<open>
  \<open>waitForThread(true)\<close> blocks the caller until the thread has returned (the stop flag
  it sets is never read by \<open>threadedFunction\<close>). The thread returns within
  \<open>thread_bound\<close> steps: eight statements outside the loop and two steps for each slot,
  of which there are at most those present plus those line 190 can add. That this bound
  is enough is lemma \<open>waitForThread_joins\<close>.
\<close>

definition thread_bound :: "world \<Rightarrow> ofxImageSequence \<Rightarrow> nat" where
  "thread_bound w s =
     2 * (length (sequence s) + length (listDir w (extension s) (folderToLoad s))) + 8"

definition waitForThread :: "world \<Rightarrow> ofxImageSequence \<Rightarrow> ub + ofxImageSequence" where
  "waitForThread w s = run_thread w (thread_bound w s) s"

text \<open>\<open>unloadSequence\<close> (lines 317 to 329).\<close>

definition unloadSequence :: "world \<Rightarrow> ofxImageSequence \<Rightarrow> ub + ofxImageSequence" where
  "unloadSequence w s =
     (case waitForThread w s of
        Inl u \<Rightarrow> Inl u
      | Inr s1 \<Rightarrow>
          Inr (s1\<lparr>sequence := [], filenames := [], loaded := False, width := 0, height := 0\<rparr>))"

text \<open>
  \<open>loadSequence(folder)\<close> (lines 108 to 126). \<open>startThread(true)\<close> puts the thread at
  the first line of \<open>threadedFunction\<close>.
\<close>

definition loadSequence_folder ::
  "world \<Rightarrow> ofxImageSequence \<Rightarrow> string \<Rightarrow> ub + (bool \<times> ofxImageSequence)" where
  "loadSequence_folder w s folder =
     (case unloadSequence w s of
        Inl u \<Rightarrow> Inl u
      | Inr s1 \<Rightarrow>
          let s2 = s1\<lparr>folderToLoad := folder\<rparr>
          in if useThread s2 then Inr (True, s2\<lparr>pc := L185\<rparr>)
             else
               (case preloadAllFilenames w s2 of
                  (True, s3) \<Rightarrow>
                    (case completeLoading w s3 of
                       Inl u \<Rightarrow> Inl u
                     | Inr s4 \<Rightarrow> Inr (True, s4))
                | (False, s3) \<Rightarrow> Inr (False, s3)))"

text \<open>
  \<open>updateThreadedLoad\<close> (lines 206 to 216), and the update event of the owner's loop,
  which calls it while it is registered.
\<close>

definition updateThreadedLoad :: "world \<Rightarrow> ofxImageSequence \<Rightarrow> ub + ofxImageSequence" where
  "updateThreadedLoad w s =
     (if loading s then Inr s
      else
        let s1 = s\<lparr>listening := False\<rparr>
        in if length (sequence s1) > 0 then completeLoading w s1 else Inr s1)"

definition update_event :: "world \<Rightarrow> ofxImageSequence \<Rightarrow> ub + ofxImageSequence" where
  "update_event w s = (if listening s then updateThreadedLoad w s else Inr s)"

text \<open>The setters (lines 219 to 245 and 331 to 334).\<close>

definition setMaxFrames :: "ofxImageSequence \<Rightarrow> int \<Rightarrow> ofxImageSequence" where
  "setMaxFrames s newMaxFrames =
     (let s1 = s\<lparr>maxFrames := max newMaxFrames 0\<rparr>
      in if loaded s1 then
           ofLogError ''ofxImageSequence::setMaxFrames''
             ''Max frames must be called before load'' s1
         else s1)"

definition setExtension :: "ofxImageSequence \<Rightarrow> string \<Rightarrow> ofxImageSequence" where
  "setExtension s ext = s\<lparr>extension := ext\<rparr>"

definition enableThreadedLoad :: "ofxImageSequence \<Rightarrow> bool \<Rightarrow> ofxImageSequence" where
  "enableThreadedLoad s enable =
     (let s1 = (if loaded s then
                  ofLogError ''ofxImageSequence::enableThreadedLoad''
                    ''Need to enable threaded loading before calling load'' s
                else s)
      in s1\<lparr>useThread := enable\<rparr>)"

definition cancelLoad :: "ofxImageSequence \<Rightarrow> ofxImageSequence" where
  "cancelLoad s = (if useThread s \<and> loading s then s\<lparr>cancelLoading := True\<rparr> else s)"

definition setFrameRate :: "ofxImageSequence \<Rightarrow> real \<Rightarrow> ofxImageSequence" where
  "setFrameRate s rate = s\<lparr>frameRate := rate\<rparr>"

section \<open>Loading a numbered pattern\<close>

definition INT_MAX :: int where
  "INT_MAX = 2147483647"

definition int32 :: "int \<Rightarrow> bool" where
  "int32 x = (- INT_MAX - 1 \<le> x \<and> x \<le> INT_MAX)"

text \<open>
  Lines 86 to 90 build the format string \<open>prefix%0Nd.filetype\<close>, or \<open>prefix%d.filetype\<close>
  when \<open>numDigits\<close> is zero, and line 93 passes it to \<open>sprintf\<close> with the index.
\<close>

definition format_str :: "string \<Rightarrow> string \<Rightarrow> int \<Rightarrow> string" where
  "format_str prefix filetype numDigits =
     (if numDigits \<noteq> 0 then prefix @ ''%0'' @ show_int numDigits @ ''d.'' @ filetype
      else prefix @ ''%d.'' @ filetype)"

text \<open>
  What the one conversion of that format writes. \<open>%d\<close>: the decimal text. \<open>%0Nd\<close>
  with \<open>N > 0\<close>: the text padded to \<open>N\<close> characters with zeros after the sign. With a
  negative \<open>numDigits\<close> the format reads \<open>%0-Nd\<close>, flags \<open>0\<close> and \<open>-\<close> and width
  \<open>N\<close>: the text padded to \<open>N\<close> characters with blanks on the right.
\<close>

definition conversion :: "int \<Rightarrow> int \<Rightarrow> string" where
  "conversion numDigits i =
     (if numDigits = 0 then show_int i
      else if numDigits > 0 then
        (if i < 0
         then CHR ''-'' # replicate (nat numDigits - 1 - length (show_nat (nat (- i)))) CHR ''0''
                @ show_nat (nat (- i))
         else replicate (nat numDigits - length (show_nat (nat i))) CHR ''0'' @ show_nat (nat i))
      else show_int i @ replicate (nat (- numDigits) - length (show_int i)) CHR '' '')"

text \<open>
  A prefix or file type with a per cent sign or a NUL in it changes how \<open>sprintf\<close> reads
  the format; those are left to \<open>sprintf_other\<close>. The result is written to
  \<open>char imagename[1024]\<close> with its terminating NUL.
\<close>

definition plain :: "string \<Rightarrow> bool" where
  "plain str = (CHR ''%'' \<notin> set str \<and> CHR 0x00 \<notin> set str)"

definition imagename :: "world \<Rightarrow> string \<Rightarrow> string \<Rightarrow> int \<Rightarrow> int \<Rightarrow> ub + string" where
  "imagename w prefix filetype numDigits i =
     (case (if plain prefix \<and> plain filetype
            then Inr (prefix @ conversion numDigits i @ ''.'' @ filetype)
            else sprintf_other w (format_str prefix filetype numDigits) i) of
        Inl u \<Rightarrow> Inl u
      | Inr name \<Rightarrow> if length name \<ge> 1024 then Inl BufferOverrun else Inr name)"

text \<open>
  The loop of lines 92 to 96 from \<open>i\<close> on. After the iteration with \<open>i = INT_MAX\<close> the
  increment overflows.
\<close>

function pattern_loop ::
  "world \<Rightarrow> string \<Rightarrow> string \<Rightarrow> int \<Rightarrow> ofxImageSequence \<Rightarrow> int \<Rightarrow> int \<Rightarrow> ub + ofxImageSequence"
  where
  "pattern_loop w prefix filetype numDigits s i endDigit =
     (if i \<le> endDigit then
        (case imagename w prefix filetype numDigits i of
           Inl u \<Rightarrow> Inl u
         | Inr name \<Rightarrow>
             if i = INT_MAX then Inl SignedOverflow
             else pattern_loop w prefix filetype numDigits
                    (s\<lparr>filenames := filenames s @ [name],
                       sequence := sequence s @ [Unallocated]\<rparr>) (i + 1) endDigit)
      else Inr s)"
  by pat_completeness auto
termination
  by (relation "measure (\<lambda>(w, prefix, filetype, numDigits, s, i, endDigit). nat (endDigit + 1 - i))")
    auto

declare pattern_loop.simps [simp del]

text \<open>
  \<open>loadSequence(prefix, filetype, startDigit, endDigit, numDigits)\<close> (lines 74 to 106).
  The arguments are \<open>int\<close>s, so \<open>endDigit - startDigit + 1\<close> is computed in \<open>int\<close>; when
  either operation leaves the range of \<open>int\<close> the behaviour is undefined.
  \<open>sequence[0]\<close> of lines 103 and 104 is not guarded.
\<close>

definition loadSequence ::
  "world \<Rightarrow> ofxImageSequence \<Rightarrow> string \<Rightarrow> string \<Rightarrow> int \<Rightarrow> int \<Rightarrow> int
     \<Rightarrow> ub + (bool \<times> ofxImageSequence)" where
  "loadSequence w s prefix filetype startDigit endDigit numDigits =
     (case unloadSequence w s of
        Inl u \<Rightarrow> Inl u
      | Inr s1 \<Rightarrow>
          if \<not> int32 (endDigit - startDigit) \<or> \<not> int32 (endDigit - startDigit + 1)
          then Inl SignedOverflow
          else
            let numFiles = endDigit - startDigit + 1
            in if numFiles \<le> 0 then
                 Inr (False, ofLogError ''ofxImageSequence::loadSequence''
                               ''No image files found.'' s1)
               else
                 (case pattern_loop w prefix filetype numDigits s1 startDigit endDigit of
                    Inl u \<Rightarrow> Inl u
                  | Inr s2 \<Rightarrow>
                      (case loadFrame w (s2\<lparr>loaded := True, lastFrameLoaded := - 1\<rparr>) 0 of
                         Inl u \<Rightarrow> Inl u
                       | Inr s3 \<Rightarrow>
                           (case sequence s3 of
                              [] \<Rightarrow> Inl VectorOutOfRange
                            | p # ps \<Rightarrow>
                                Inr (True, s3\<lparr>width := getWidthPx p,
                                               height := getHeightPx p\<rparr>)))))"

text \<open>The overload without \<open>numDigits\<close> (lines 69 to 72).\<close>

definition loadSequence4 ::
  "world \<Rightarrow> ofxImageSequence \<Rightarrow> string \<Rightarrow> string \<Rightarrow> int \<Rightarrow> int
     \<Rightarrow> ub + (bool \<times> ofxImageSequence)" where
  "loadSequence4 w s prefix filetype startDigit endDigit =
     loadSequence w s prefix filetype startDigit endDigit 0"

text \<open>
  C++ gives the call no meaning once line 80 overflows, and \<open>loadSequence\<close> has no
  result there. A build that computes \<open>int\<close> in two's complement and does not check
  \<open>operator[]\<close> goes on: each of the two operations of line 80 wraps around, and
  \<open>sequence[0]\<close> of an empty vector reads the \<open>ofPixels\<close> that lies at the start of the
  vector's storage, if it has one. \<open>loadSequence_wrapping\<close> is the call as such a build
  executes it, \<open>stale\<close> being what it reads there. The loop stays as it is: when the
  increment of line 92 wraps around at \<open>INT_MAX\<close>, the test \<open>i <= endDigit\<close> holds
  again and the loop does not end.
\<close>

definition wrap32 :: "int \<Rightarrow> int" where
  "wrap32 x = (x + 2 ^ 31) mod 2 ^ 32 - 2 ^ 31"

definition loadSequence_wrapping ::
  "world \<Rightarrow> ofxImageSequence \<Rightarrow> string \<Rightarrow> string \<Rightarrow> int \<Rightarrow> int \<Rightarrow> int \<Rightarrow> ofPixels
     \<Rightarrow> ub + (bool \<times> ofxImageSequence)" where
  "loadSequence_wrapping w s prefix filetype startDigit endDigit numDigits stale =
     (case unloadSequence w s of
        Inl u \<Rightarrow> Inl u
      | Inr s1 \<Rightarrow>
          let numFiles = wrap32 (wrap32 (endDigit - startDigit) + 1)
          in if numFiles \<le> 0 then
               Inr (False, ofLogError ''ofxImageSequence::loadSequence''
                             ''No image files found.'' s1)
             else
               (case pattern_loop w prefix filetype numDigits s1 startDigit endDigit of
                  Inl u \<Rightarrow> Inl u
                | Inr s2 \<Rightarrow>
                    (case loadFrame w (s2\<lparr>loaded := True, lastFrameLoaded := - 1\<rparr>) 0 of
                       Inl u \<Rightarrow> Inl u
                     | Inr s3 \<Rightarrow>
                         let p = (case sequence s3 of [] \<Rightarrow> stale | p # ps \<Rightarrow> p)
                         in Inr (True, s3\<lparr>width := getWidthPx p,
                                          height := getHeightPx p\<rparr>))))"

section \<open>Single-precision arithmetic\<close>

text \<open>
  A \<open>float\<close> is modelled by the real number it stands for, and every \<open>float\<close>
  operation by the exact operation followed by \<open>fl32\<close>, the rounding of IEEE 754
  binary32: 24 significant bits, round to nearest, ties to even, gradual underflow below
  \<open>2^-126\<close>. Infinities and NaN are outside the model. \<open>binade x\<close> is the exponent
  \<open>e\<close> with \<open>2^e \<le> x < 2^(e+1)\<close> for positive \<open>x\<close>.
\<close>

function binade :: "real \<Rightarrow> int" where
  "binade x =
     (if x \<le> 0 then 0
      else if 2 \<le> x then binade (x / 2) + 1
      else if x < 1 then binade (2 * x) - 1
      else 0)"
  by pat_completeness auto
termination
proof (relation "measure (\<lambda>x. nat \<lfloor>x\<rfloor> + 2 * nat \<lceil>1 / x\<rceil>)")
  show "wf (measure (\<lambda>x. nat \<lfloor>x\<rfloor> + 2 * nat \<lceil>1 / x\<rceil>))" by simp
next
  fix x :: real
  assume a: "\<not> x \<le> 0" "2 \<le> x"
  have 1: "\<lfloor>x / 2\<rfloor> < \<lfloor>x\<rfloor>" using a by linarith
  have 2: "\<lceil>1 / (x / 2)\<rceil> = 1" using a by (simp add: ceiling_eq_iff)
  have 3: "\<lceil>1 / x\<rceil> = 1" using a by (simp add: ceiling_eq_iff)
  have 4: "0 \<le> \<lfloor>x / 2\<rfloor>" using a by simp
  show "(x / 2, x) \<in> measure (\<lambda>x. nat \<lfloor>x\<rfloor> + 2 * nat \<lceil>1 / x\<rceil>)"
    using a 1 2 3 4 by simp
next
  fix x :: real
  assume a: "\<not> x \<le> 0" "\<not> 2 \<le> x" "x < 1"
  have 1: "\<lfloor>x\<rfloor> = 0" using a by (simp add: floor_eq_iff)
  have 2: "\<lfloor>2 * x\<rfloor> \<le> 1" using a by (simp add: floor_le_iff)
  have 3: "\<lceil>1 / (2 * x)\<rceil> < \<lceil>1 / x\<rceil>"
  proof -
    define c where "c = \<lceil>1 / x\<rceil>"
    have y: "1 < 1 / x" using a by simp
    then have c2: "2 \<le> c" unfolding c_def by linarith
    have "1 / x \<le> of_int c" unfolding c_def by linarith
    then have "1 / (2 * x) \<le> of_int c / 2" by simp
    also have "\<dots> \<le> of_int (c - 1)" using c2 by simp
    finally have "\<lceil>1 / (2 * x)\<rceil> \<le> c - 1" by (simp only: ceiling_le_iff)
    then show ?thesis unfolding c_def by simp
  qed
  have 4: "0 < \<lceil>1 / (2 * x)\<rceil>" using a by simp
  have 5: "nat \<lfloor>2 * x\<rfloor> \<le> 1" using 2 by linarith
  have 6: "nat \<lceil>1 / (2 * x)\<rceil> < nat \<lceil>1 / x\<rceil>" using 3 4 by linarith
  have 7: "nat \<lfloor>x\<rfloor> = 0" using 1 by simp
  show "(2 * x, x) \<in> measure (\<lambda>x. nat \<lfloor>x\<rfloor> + 2 * nat \<lceil>1 / x\<rceil>)"
    unfolding in_measure using 5 6 7 by linarith
qed

definition round_even :: "real \<Rightarrow> int" where
  "round_even y =
     (let f = \<lfloor>y\<rfloor>; r = y - of_int f
      in if r < 1 / 2 then f else if 1 / 2 < r then f + 1 else if even f then f else f + 1)"

definition pow2 :: "int \<Rightarrow> real" where
  "pow2 e = (if 0 \<le> e then 2 ^ nat e else 1 / 2 ^ nat (- e))"

definition fl32 :: "real \<Rightarrow> real" where
  "fl32 x =
     (let u = pow2 (max (binade \<bar>x\<bar>) (- 126) - 23)
      in of_int (round_even (x / u)) * u)"

declare binade.simps [simp del]

definition is_float :: "real \<Rightarrow> bool" where
  "is_float x = (fl32 x = x)"

definition FLT_EPSILON :: real where
  "FLT_EPSILON = 1 / 2 ^ 23"

text \<open>
  \<open>ofMap\<close> of openFrameworks (ofMath.cpp), all of whose arguments and operations are
  \<open>float\<close>: the linear map of \<open>value\<close> from the input range to the output range,
  \<open>outputMin\<close> when the input range is empty, clamped to the output range on request.
\<close>

definition ofMap :: "real \<Rightarrow> real \<Rightarrow> real \<Rightarrow> real \<Rightarrow> real \<Rightarrow> bool \<Rightarrow> real" where
  "ofMap val inputMin inputMax outputMin outputMax clamp =
     (if \<bar>fl32 (inputMin - inputMax)\<bar> < FLT_EPSILON then outputMin
      else
        let outVal = fl32 (fl32 (fl32 (fl32 (val - inputMin) / fl32 (inputMax - inputMin))
                                  * fl32 (outputMax - outputMin)) + outputMin)
        in if clamp then
             (if outputMax < outputMin then
                (if outVal < outputMax then outputMax
                 else if outVal > outputMin then outputMin else outVal)
              else
                (if outVal > outputMax then outputMax
                 else if outVal < outputMin then outputMin else outVal))
           else outVal)"

section \<open>Addressing by percent\<close>

text \<open>
  \<open>sequence.size()-1\<close> is computed in \<open>size_t\<close>, 64 bits wide: for an empty vector it
  is \<open>2^64 - 1\<close>.
\<close>

definition size_minus_1 :: "ofxImageSequence \<Rightarrow> int" where
  "size_minus_1 s = (if length (sequence s) = 0 then 2 ^ 64 - 1 else int (length (sequence s)) - 1)"

text \<open>
  \<open>getPercentAtFrameIndex\<close> (lines 302 to 305): the \<open>int\<close> index and the \<open>size_t\<close>
  bound are converted to \<open>float\<close> for the call.
\<close>

definition getPercentAtFrameIndex :: "ofxImageSequence \<Rightarrow> int \<Rightarrow> real" where
  "getPercentAtFrameIndex s index =
     ofMap (fl32 (of_int index)) 0 (fl32 (of_int (size_minus_1 s))) 0 1 True"

text \<open>
  \<open>getFrameIndexAtPercent\<close> (lines 336 to 341). The product is a \<open>float\<close> product of
  \<open>percent\<close> and the size converted to \<open>float\<close>; the cast to \<open>int\<close> truncates towards
  zero and is undefined outside \<open>int\<close>. The product is never negative, so the comparison
  of \<open>MIN\<close>, made in \<open>size_t\<close>, compares the values.
\<close>

definition c_trunc :: "real \<Rightarrow> int" where
  "c_trunc t = (if 0 \<le> t then \<lfloor>t\<rfloor> else \<lceil>t\<rceil>)"

definition getFrameIndexAtPercent :: "ofxImageSequence \<Rightarrow> real \<Rightarrow> ub + int" where
  "getFrameIndexAtPercent s percent =
     (let p = (if percent < 0 \<or> 1 < percent then fl32 (percent - of_int \<lfloor>percent\<rfloor>)
               else percent);
          t = fl32 (p * fl32 (real (length (sequence s))))
      in if \<not> int32 (c_trunc t) then Inl FloatToInt
         else Inr (min (c_trunc t) (size_minus_1 s)))"

text \<open>
  \<open>setFrameAtPercent\<close> (lines 412 to 415). \<open>setFrameForTime\<close> (lines 405 to 410)
  computes a percent in \<open>float\<close> and calls it; the deprecated getters and
  \<open>getTextureFor...\<close> (lines 344 to 385) call these setters and return the texture. All
  of them change the object only through \<open>setFrame\<close> at some index.
\<close>

definition setFrameAtPercent :: "world \<Rightarrow> ofxImageSequence \<Rightarrow> real \<Rightarrow> ub + ofxImageSequence" where
  "setFrameAtPercent w s percent =
     (case getFrameIndexAtPercent s percent of
        Inl u \<Rightarrow> Inl u
      | Inr index \<Rightarrow> setFrame w s index)"

definition isLoaded :: "ofxImageSequence \<Rightarrow> bool" where
  "isLoaded s = loaded s"

definition isLoading :: "ofxImageSequence \<Rightarrow> bool" where
  "isLoading s = loading s"

section \<open>Executions\<close>

text \<open>
  What can happen to an object after its construction: a call of a public member function
  by the owner, a step of the background thread, or an update event of the owner's loop.
  The owner and the thread interleave at the granularity of these steps. A load's
  boolean result is dropped here. \<open>SetFrame\<close> at an arbitrary index stands for every
  addressing call as well. \<open>setMinMagFilter\<close> (lines 247 to 252) is left out: it
  writes the two filter modes and nothing that is modelled here. A \<open>run\<close> stops where
  a step has undefined behaviour.
\<close>

datatype call =
    LoadPattern string string int int int
  | LoadFolder string
  | Unload
  | SetFrame int
  | SetFrameAtPercent real
  | PreloadAllFrames
  | SetMaxFrames int
  | SetExtension string
  | EnableThreadedLoad bool
  | CancelLoad
  | SetFrameRate real
  | ThreadStep
  | UpdateEvent

fun call_step :: "world \<Rightarrow> ofxImageSequence \<Rightarrow> call \<Rightarrow> ub + ofxImageSequence" where
  "call_step w s (LoadPattern prefix filetype startDigit endDigit numDigits) =
     map_sum id snd (loadSequence w s prefix filetype startDigit endDigit numDigits)"
| "call_step w s (LoadFolder folder) = map_sum id snd (loadSequence_folder w s folder)"
| "call_step w s Unload = unloadSequence w s"
| "call_step w s (SetFrame index) = setFrame w s index"
| "call_step w s (SetFrameAtPercent percent) = setFrameAtPercent w s percent"
| "call_step w s PreloadAllFrames = preloadAllFrames w s"
| "call_step w s (SetMaxFrames n) = Inr (setMaxFrames s n)"
| "call_step w s (SetExtension ext) = Inr (setExtension s ext)"
| "call_step w s (EnableThreadedLoad enable) = Inr (enableThreadedLoad s enable)"
| "call_step w s CancelLoad = Inr (cancelLoad s)"
| "call_step w s (SetFrameRate rate) = Inr (setFrameRate s rate)"
| "call_step w s ThreadStep = thread_step w s"
| "call_step w s UpdateEvent = update_event w s"

fun run :: "world \<Rightarrow> ofxImageSequence \<Rightarrow> call list \<Rightarrow> ub + ofxImageSequence" where
  "run w s [] = Inr s"
| "run w s (c # cs) =
     (case call_step w s c of
        Inl u \<Rightarrow> Inl u
      | Inr s1 \<Rightarrow> run w s1 cs)"

text \<open>
  The states an object can be in. They are those reached by steps that have a result,
  and those the pattern load reaches in a build that wraps \<open>int\<close> around, whatever lies
  in the vector's storage: the undefined behaviour of lines 80, 103 and 104 does not end
  the executions that are followed here. The three \<open>int\<close> arguments are in the range of
  \<open>int\<close>.
\<close>

inductive reachable :: "world \<Rightarrow> ofxImageSequence \<Rightarrow> bool" for w :: world where
  reachable_constructor: "reachable w constructor"
| reachable_step: "reachable w s \<Longrightarrow> call_step w s c = Inr s1 \<Longrightarrow> reachable w s1"
| reachable_wrapping:
    "reachable w s \<Longrightarrow> int32 startDigit \<Longrightarrow> int32 endDigit \<Longrightarrow> int32 numDigits \<Longrightarrow>
     loadSequence_wrapping w s prefix filetype startDigit endDigit numDigits stale
       = Inr (ok, s1) \<Longrightarrow>
     reachable w s1"

section \<open>Concrete worlds and objects\<close>

text \<open>
  \<open>studio\<close>: every file decodes to a 4 by 3 image, except those named \<open>bad...\<close>;
  the folder \<open>clip\<close> holds two good files, the folder \<open>mixed\<close> a bad one and a good
  one.
\<close>

definition studio :: world where
  "studio = \<lparr>decodeFile = (\<lambda>path. if take 3 path = ''bad'' then None else Some (4, 3, [])),
              folderExists = (\<lambda>folder. folder = ''clip'' \<or> folder = ''mixed''),
              listDir = (\<lambda>ext folder.
                 if folder = ''clip'' then [''a.png'', ''b.png'']
                 else if folder = ''mixed'' then [''bad.png'', ''b.png'']
                 else []),
              sprintf_other = (\<lambda>fmt i. Inr fmt)\<rparr>"

text \<open>A loaded object of \<open>n\<close> undecoded frames.\<close>

definition frames :: "nat \<Rightarrow> ofxImageSequence" where
  "frames n = constructor\<lparr>sequence := replicate n Unallocated,
                            filenames := replicate n ''f.png'', loaded := True\<rparr>"




text \<open>
  Loading three numbered frames, showing the last of them, and loading one numbered frame
  in the same object.
\<close>

definition reload_session :: "ub + ofxImageSequence" where
  "reload_session =
     run studio constructor
       [LoadPattern ''f'' ''png'' 1 3 3, SetFrame 2, LoadPattern ''g'' ''png'' 1 1 3]"

text \<open>
  Loading three numbered frames, and then loading the range from \<open>INT_MAX\<close> to
  \<open>INT_MIN\<close> in the same object, in a build that wraps \<open>int\<close> around. The first load
  leaves the vector its storage, where the second reads \<open>stale\<close>.
\<close>

definition inverted_reload :: "ofPixels \<Rightarrow> ub + (bool \<times> ofxImageSequence)" where
  "inverted_reload stale =
     loadSequence_wrapping studio
       (projr (run studio constructor [LoadPattern ''f'' ''png'' 1 3 3]))
       ''f'' ''png'' 2147483647 (- 2147483648) 3 stale"

text \<open>
  The invariant of the two vectors: the file names and the pixel buffers are equally
  many.
\<close>

definition wellformed :: "ofxImageSequence \<Rightarrow> bool" where
  "wellformed s = (length (filenames s) = length (sequence s))"

text \<open>With that, a loaded object has at least one entry.\<close>

definition entries_ok :: "ofxImageSequence \<Rightarrow> bool" where
  "entries_ok s = ((loaded s \<longrightarrow> sequence s \<noteq> []) \<and> length (filenames s) = length (sequence s))"

text \<open>
  A background load of the folder \<open>clip\<close> that is cancelled after the first frame is
  decoded: the owner enables the thread and starts the load, the thread runs up to the end
  of the first iteration of the decoding loop, the owner calls \<open>cancelLoad\<close>. Then the
  thread reaches the cancellation test of the second iteration and returns, and the
  owner's loop raises the update event.
\<close>

definition cancel_requested :: "ub + ofxImageSequence" where
  "cancel_requested =
     run studio constructor
       [EnableThreadedLoad True, LoadFolder ''clip'',
        ThreadStep, ThreadStep, ThreadStep, ThreadStep, ThreadStep, ThreadStep,
        ThreadStep, ThreadStep, CancelLoad]"

definition cancel_session :: "ub + ofxImageSequence" where
  "cancel_session =
     run studio constructor
       [EnableThreadedLoad True, LoadFolder ''clip'',
        ThreadStep, ThreadStep, ThreadStep, ThreadStep, ThreadStep, ThreadStep,
        ThreadStep, ThreadStep, CancelLoad,
        ThreadStep, ThreadStep, UpdateEvent]"

text \<open>
  The number of steps the thread has left at most, by its program counter: the measure
  for \<open>waitForThread\<close>.
\<close>

definition steps_left :: "world \<Rightarrow> ofxImageSequence \<Rightarrow> nat" where
  "steps_left w s =
     (case pc s of
        NotRunning \<Rightarrow> 0
      | L203 \<Rightarrow> 1
      | Decode i \<Rightarrow> 2 * (length (sequence s) - i) + 1
      | Loop i \<Rightarrow> 2 * (length (sequence s) - i) + 2
      | L256 \<Rightarrow> 2 * length (sequence s) + 3
      | L195 \<Rightarrow> 2 * length (sequence s) + 4
      | L190 \<Rightarrow> 2 * (length (sequence s) + length (listDir w (extension s) (folderToLoad s))) + 5
      | L188 \<Rightarrow> 2 * (length (sequence s) + length (listDir w (extension s) (folderToLoad s))) + 6
      | L186 \<Rightarrow> 2 * (length (sequence s) + length (listDir w (extension s) (folderToLoad s))) + 7
      | L185 \<Rightarrow> 2 * (length (sequence s) + length (listDir w (extension s) (folderToLoad s))) + 8)"

text \<open>
  Every allocated buffer was decoded from its file: in a world that does not change, the
  file of an allocated slot decodes.
\<close>

definition decoded_ok :: "world \<Rightarrow> ofxImageSequence \<Rightarrow> bool" where
  "decoded_ok w s =
     (\<forall>k < length (sequence s).
        isAllocated (sequence s ! k) \<longrightarrow> decodeFile w (filenames s ! k) \<noteq> None)"

text \<open>
  What holds of the object while the thread is at each of its lines: \<open>loading\<close> from
  line 186 on, the listener registered from line 190 on, and a sequence that is not empty
  once \<open>preloadAllFilenames\<close> has succeeded.
\<close>

definition thread_ok :: "ofxImageSequence \<Rightarrow> bool" where
  "thread_ok s =
     (case pc s of
        NotRunning \<Rightarrow> True
      | L185 \<Rightarrow> True
      | L186 \<Rightarrow> loading s
      | L188 \<Rightarrow> loading s
      | L190 \<Rightarrow> loading s \<and> listening s
      | L195 \<Rightarrow> loading s \<and> listening s \<and> sequence s \<noteq> []
      | L256 \<Rightarrow> loading s \<and> listening s \<and> sequence s \<noteq> []
      | Loop i \<Rightarrow> loading s \<and> listening s \<and> sequence s \<noteq> []
      | Decode i \<Rightarrow> loading s \<and> listening s \<and> sequence s \<noteq> []
      | L203 \<Rightarrow> loading s \<and> listening s \<and> sequence s \<noteq> [])"

section \<open>Addressing by index\<close>

lemma c_rem_nonneg: "0 \<le> a \<Longrightarrow> 0 < b \<Longrightarrow> c_rem a b = Inr (a mod b)"
  by (cases "a = 0") (simp_all add: c_rem_def)

text \<open>
  Claim C2. On a loaded sequence that is not empty, \<open>setFrame\<close> at an index at or beyond
  the number of frames does what \<open>setFrame\<close> does at the index reduced modulo that number.
  At every index that is not negative the call returns, and \<open>currentFrame\<close> is then the
  index reduced modulo the number of frames; this is for an object with as many file
  names as pixel buffers, as every object has that is reached from the constructor. At a
  negative index the call logs an error and changes nothing else, \<open>currentFrame\<close>
  included.
\<close>

theorem setFrame_wraps_high_rejects_negative:
  assumes "loaded s" and "sequence s \<noteq> []"
  shows "(getTotalFrames s \<le> index \<longrightarrow>
            setFrame w s index = setFrame w s (index mod getTotalFrames s))
       \<and> (0 \<le> index \<and> length (filenames s) = length (sequence s) \<longrightarrow>
            (\<exists>s1. setFrame w s index = Inr s1
                 \<and> currentFrame s1 = index mod getTotalFrames s))
       \<and> (index < 0 \<longrightarrow>
            setFrame w s index =
              Inr (s\<lparr>errors := errors s @
                     [(''ofxImageSequence::setFrame'', ''Asking for negative index.'')]\<rparr>))"
proof -
  let ?n = "getTotalFrames s"
  have n: "0 < ?n" using assms(2) by (simp add: getTotalFrames_def)
  have high: "setFrame w s index = setFrame w s (index mod ?n)" if "?n \<le> index"
  proof -
    have i: "0 \<le> index" using that n by linarith
    have m: "0 \<le> index mod ?n" using n by simp
    have i': "\<not> index < 0" and m': "\<not> index mod ?n < 0" using i m by simp_all
    show ?thesis
      using assms(1) i m n by (simp add: setFrame_def c_rem_nonneg i' m')
  qed
  have cycles: "\<exists>s1. setFrame w s index = Inr s1 \<and> currentFrame s1 = index mod ?n"
    if i: "0 \<le> index" and l: "length (filenames s) = length (sequence s)"
  proof -
    have r: "c_rem index ?n = Inr (index mod ?n)" using i n by (rule c_rem_nonneg)
    have b: "0 \<le> index mod ?n" "index mod ?n < int (length (sequence s))"
      using n by (simp_all add: getTotalFrames_def)
    then have "nat (index mod ?n) < length (filenames s)" using l by simp
    then have "\<exists>s0. loadFrame w s (index mod ?n) = Inr s0"
      using b by (simp add: loadFrame_def Let_def)
    then obtain s0 where f: "loadFrame w s (index mod ?n) = Inr s0" ..
    have "setFrame w s index = Inr (s0\<lparr>currentFrame := index mod ?n\<rparr>)"
      using assms(1) i r f by (simp add: setFrame_def)
    then show ?thesis by simp
  qed
  have low: "setFrame w s index =
      Inr (s\<lparr>errors := errors s @
             [(''ofxImageSequence::setFrame'', ''Asking for negative index.'')]\<rparr>)"
    if "index < 0"
    using assms(1) that by (simp add: setFrame_def ofLogError_def)
  show ?thesis using high cycles low by blast
qed

theorem setFrame_wraps_high_rejects_negative_witness:
  "loaded (frames 3) \<and> sequence (frames 3) \<noteq> []
   \<and> length (filenames (frames 3)) = length (sequence (frames 3))
   \<and> getTotalFrames (frames 3) \<le> 7
   \<and> setFrame studio (frames 3) 7 = setFrame studio (frames 3) 1
   \<and> (\<exists>s1. setFrame studio (frames 3) 7 = Inr s1 \<and> currentFrame s1 = 1)
   \<and> setFrame studio (frames 3) (- 1) =
        Inr ((frames 3)\<lparr>errors := errors (frames 3) @
               [(''ofxImageSequence::setFrame'', ''Asking for negative index.'')]\<rparr>)"
proof -
  have a: "loaded (frames 3)" by (simp add: frames_def constructor_def)
  have b: "sequence (frames 3) \<noteq> []" by (simp add: frames_def constructor_def)
  have l: "length (filenames (frames 3)) = length (sequence (frames 3))"
    by (simp add: frames_def constructor_def)
  have n: "getTotalFrames (frames 3) = 3"
    by (simp add: frames_def constructor_def getTotalFrames_def)
  have c: "setFrame studio (frames 3) 7 = setFrame studio (frames 3) 1"
    using setFrame_wraps_high_rejects_negative [OF a b, of 7 studio] n by simp
  have d: "setFrame studio (frames 3) (- 1) =
        Inr ((frames 3)\<lparr>errors := errors (frames 3) @
               [(''ofxImageSequence::setFrame'', ''Asking for negative index.'')]\<rparr>)"
    using setFrame_wraps_high_rejects_negative [OF a b, of "- 1" studio] by simp
  have "0 \<le> (7::int) \<and> length (filenames (frames 3)) = length (sequence (frames 3)) \<longrightarrow>
        (\<exists>s1. setFrame studio (frames 3) 7 = Inr s1
             \<and> currentFrame s1 = 7 mod getTotalFrames (frames 3))"
    using setFrame_wraps_high_rejects_negative [OF a b, of 7 studio] by blast
  then have e: "\<exists>s1. setFrame studio (frames 3) 7 = Inr s1 \<and> currentFrame s1 = 1"
    using l n by simp
  show ?thesis using a b l c d e n by simp
qed

section \<open>Frame operations: what they keep\<close>

lemma loadFrame_keeps:
  assumes "loadFrame w s i = Inr s1"
  shows "length (sequence s1) = length (sequence s)" and "filenames s1 = filenames s"
    and "loaded s1 = loaded s" and "width s1 = width s" and "height s1 = height s"
    and "currentFrame s1 = currentFrame s" and "pc s1 = pc s" and "loading s1 = loading s"
    and "useThread s1 = useThread s" and "cancelLoading s1 = cancelLoading s"
    and "listening s1 = listening s"
  using assms
  by (auto simp: loadFrame_def ofLogError_def Let_def split: if_splits)

lemma loadFrame_uploads:
  assumes "loadFrame w s i = Inr s1"
  shows "uploads s1 = uploads s \<or> uploads s1 = uploads s + 1 \<and> lastFrameLoaded s \<noteq> i \<and> lastFrameLoaded s1 = i"
  using assms
  by (auto simp: loadFrame_def ofLogError_def Let_def split: if_splits)

lemma loadFrame_same: "lastFrameLoaded s = i \<Longrightarrow> loadFrame w s i = Inr s"
  by (simp add: loadFrame_def)

lemma run_thread_idle: "pc s = NotRunning \<Longrightarrow> run_thread w n s = Inr s"
  by (induction n) (simp_all add: thread_step_def)

lemma decode_slot_keeps:
  assumes "decode_slot w s i = Inr s1"
  shows "length (sequence s1) = length (sequence s)" and "filenames s1 = filenames s"
    and "loaded s1 = loaded s" and "width s1 = width s" and "height s1 = height s"
    and "currentFrame s1 = currentFrame s" and "pc s1 = pc s" and "loading s1 = loading s"
    and "useThread s1 = useThread s" and "cancelLoading s1 = cancelLoading s"
    and "listening s1 = listening s" and "lastFrameLoaded s1 = lastFrameLoaded s"
    and "uploads s1 = uploads s" and "texture s1 = texture s"
  using assms
  by (auto simp: decode_slot_def ofLogError_def Let_def split: if_splits)

lemma decode_slot_slots:
  assumes "decode_slot w s i = Inr s1"
  shows "sequence s1 = (sequence s)[i := snd (ofLoadImage w (sequence s ! i) (filenames s ! i))]"
    and "set (errors s) \<subseteq> set (errors s1)"
    and "\<not> fst (ofLoadImage w (sequence s ! i) (filenames s ! i)) \<Longrightarrow>
           (''ofxImageSequence::loadFrame'', ''Image failed to load: '' @ filenames s ! i) \<in> set (errors s1)"
  using assms
  by (auto simp: decode_slot_def ofLogError_def Let_def split: if_splits)



section \<open>A failed decode\<close>



lemma ofLoadImage_allocated_iff:
  "isAllocated (snd (ofLoadImage w pix path)) = (isAllocated pix \<or> decodeFile w path \<noteq> None)"
  by (auto simp: ofLoadImage_def split: option.splits)







section \<open>Requesting the same frame twice\<close>

lemma loadFrame_presented:
  assumes "loadFrame w s r = Inr s1" and "0 \<le> r" and "r < int (length (sequence s))"
  shows "(lastFrameLoaded s1 = r) = (lastFrameLoaded s = r \<or> isAllocated (sequence s1 ! nat r))"
    and "(uploads s1 = uploads s + 1) = (lastFrameLoaded s \<noteq> r \<and> isAllocated (sequence s1 ! nat r))"
    and "uploads s1 \<le> uploads s + 1"
  using assms
  by (auto simp: loadFrame_def ofLogError_def Let_def split: if_splits)

lemma loadFrame_retry:
  assumes "loadFrame w s r = Inr s1" and "0 \<le> r" and "r < int (length (sequence s))"
  shows "\<exists>s2. loadFrame w s1 r = Inr s2 \<and> uploads s2 = uploads s1
            \<and> (lastFrameLoaded s1 = r \<longrightarrow> s2 = s1)"
  using assms
  by (auto simp: loadFrame_def ofLogError_def Let_def ofLoadImage_def
      split: if_splits option.splits)

text \<open>
  Claim C8, as amended. On a loaded sequence, let \<open>setFrame\<close> at an index that is not
  negative return, and let \<open>r\<close> be the index modulo the number of frames. The call
  performs at most one upload, and exactly one precisely when \<open>r\<close> differs from
  \<open>lastFrameLoaded\<close> and slot \<open>r\<close> is allocated after the decoding attempt. A second
  call at the same index returns and performs no upload; when the first call left
  \<open>lastFrameLoaded\<close> equal to \<open>r\<close> it leaves the whole state unchanged.
\<close>

theorem same_frame_twice_at_most_one_upload:
  assumes "loaded s" and "0 \<le> index" and "setFrame w s index = Inr s1"
  shows "uploads s1 \<le> uploads s + 1
       \<and> (uploads s1 = uploads s + 1) =
           (lastFrameLoaded s \<noteq> index mod getTotalFrames s
            \<and> isAllocated (sequence s1 ! nat (index mod getTotalFrames s)))
       \<and> (\<exists>s2. setFrame w s1 index = Inr s2 \<and> uploads s2 = uploads s1
              \<and> (lastFrameLoaded s1 = index mod getTotalFrames s \<longrightarrow> s2 = s1))"
proof -
  let ?n = "getTotalFrames s"
  let ?r = "index mod ?n"
  have n0: "?n \<noteq> 0"
    using assms by (auto simp: setFrame_def c_rem_def split: if_splits)
  then have n: "0 < ?n" by (simp add: getTotalFrames_def)
  have r: "c_rem index ?n = Inr ?r" using assms(2) n by (rule c_rem_nonneg)
  have rr: "0 \<le> ?r" "?r < int (length (sequence s))"
    using n by (simp_all add: getTotalFrames_def)
  obtain s0 where lf: "loadFrame w s ?r = Inr s0" and s1: "s1 = s0\<lparr>currentFrame := ?r\<rparr>"
    using assms r by (auto simp: setFrame_def split: sum.splits)
  note p = loadFrame_presented [OF lf rr]
  note k = loadFrame_keeps [OF lf]
  obtain s2 where lf2: "loadFrame w s0 ?r = Inr s2" and u2: "uploads s2 = uploads s0"
    and same: "lastFrameLoaded s0 = ?r \<longrightarrow> s2 = s0"
    using loadFrame_retry [OF lf rr] by blast
  have len1: "getTotalFrames s1 = ?n" using s1 k(1) by (simp add: getTotalFrames_def)
  have lf1: "loadFrame w s1 ?r = Inr (s2\<lparr>currentFrame := ?r\<rparr>)"
    using lf2 s1 by (auto simp: loadFrame_def ofLogError_def Let_def split: if_splits)
  have second: "setFrame w s1 index = Inr (s2\<lparr>currentFrame := ?r\<rparr>)"
    using assms(1,2) s1 k(3) len1 r lf1 by (simp add: setFrame_def)
  have a: "uploads s1 \<le> uploads s + 1" using p(3) s1 by simp
  have b: "(uploads s1 = uploads s + 1) =
           (lastFrameLoaded s \<noteq> ?r \<and> isAllocated (sequence s1 ! nat ?r))"
    using p(2) s1 by simp
  have c: "\<exists>s2. setFrame w s1 index = Inr s2 \<and> uploads s2 = uploads s1
              \<and> (lastFrameLoaded s1 = ?r \<longrightarrow> s2 = s1)"
    using second u2 same s1 by auto
  show ?thesis using a b c by blast
qed


section \<open>Evaluating executions\<close>

lemma waitForThread_idle: "pc s = NotRunning \<Longrightarrow> waitForThread w s = Inr s"
  by (simp add: waitForThread_def run_thread_idle)

lemma studio_simps:
  "decodeFile studio ''bad.png'' = None" "decodeFile studio ''b.png'' = Some (4, 3, [])"
  "decodeFile studio ''a.png'' = Some (4, 3, [])" "decodeFile studio ''f.png'' = Some (4, 3, [])"
  "folderExists studio ''clip''" "folderExists studio ''mixed''"
  "listDir studio ext ''clip'' = [''a.png'', ''b.png'']"
  "listDir studio ext ''mixed'' = [''bad.png'', ''b.png'']"
  by (simp_all add: studio_def)

lemmas exec_defs = loadSequence_folder_def unloadSequence_def preloadAllFilenames_def
  completeLoading_def loadFrame_def setFrame_def c_rem_def getTotalFrames_def ofLoadImage_def
  ofLogError_def update_event_def updateThreadedLoad_def thread_step_def decode_slot_def
  cancelLoad_def enableThreadedLoad_def setMaxFrames_def setExtension_def Let_def
  eval_nat_numeral

lemma clip_loaded:
  "run studio constructor [LoadFolder ''clip''] =
     Inr (constructor\<lparr>sequence := [Pixels 4 3 [], Unallocated],
            filenames := [''a.png'', ''b.png''], loaded := True, lastFrameLoaded := 0,
            width := 4, height := 3, folderToLoad := ''clip'',
            texture := Pixels 4 3 [], uploads := 1\<rparr>)"
  by (simp add: exec_defs waitForThread_idle studio_simps constructor_def)

text \<open>
  Claim C8 as stated fails: after a folder of two good files is loaded, frame 0 is the
  frame last uploaded, and two requests for frame 0 in succession leave the state as it
  was, the count of uploads included. They perform no upload, not one.
\<close>

theorem same_frame_twice_no_upload_counterexample:
  "loaded (projr (run studio constructor [LoadFolder ''clip'']))
   \<and> run studio constructor [LoadFolder ''clip'', SetFrame 0, SetFrame 0] =
       run studio constructor [LoadFolder ''clip'']
   \<and> uploads (projr (run studio constructor [LoadFolder ''clip'', SetFrame 0, SetFrame 0])) =
       uploads (projr (run studio constructor [LoadFolder ''clip'']))"
proof -
  have a: "run studio constructor [LoadFolder ''clip'', SetFrame 0, SetFrame 0] =
       run studio constructor [LoadFolder ''clip'']"
    unfolding clip_loaded
    by (simp add: exec_defs waitForThread_idle studio_simps constructor_def)
  have b: "loaded (projr (run studio constructor [LoadFolder ''clip'']))"
    unfolding clip_loaded by simp
  show ?thesis unfolding a using b by simp
qed

theorem same_frame_twice_at_most_one_upload_witness:
  "loaded (frames 3) \<and> (0::int) \<le> 1
   \<and> \<not> isl (setFrame studio (frames 3) 1)
   \<and> uploads (projr (setFrame studio (frames 3) 1)) = uploads (frames 3) + 1
   \<and> setFrame studio (projr (setFrame studio (frames 3) 1)) 1 = setFrame studio (frames 3) 1"
proof -
  define s1 where "s1 = (frames 3)\<lparr>sequence := [Unallocated, Pixels 4 3 [], Unallocated],
      texture := Pixels 4 3 [], uploads := 1, lastFrameLoaded := 1, currentFrame := 1\<rparr>"
  have l: "loaded (frames 3)" by (simp add: frames_def)
  have f: "setFrame studio (frames 3) 1 = Inr s1"
    unfolding s1_def
    by (simp add: frames_def exec_defs studio_simps constructor_def numeral_3_eq_3)
  have n: "getTotalFrames (frames 3) = 3" by (simp add: frames_def getTotalFrames_def)
  have seq: "sequence s1 ! nat 1 = Pixels 4 3 []" by (simp add: s1_def)
  have last: "lastFrameLoaded s1 = 1" "lastFrameLoaded (frames 3) = - 1"
    by (simp_all add: s1_def frames_def constructor_def)
  note t = same_frame_twice_at_most_one_upload [OF l _ f, of ]
  have u: "uploads s1 = uploads (frames 3) + 1" using t n seq last by simp
  have again: "setFrame studio s1 1 = Inr s1" using t n last by auto
  show ?thesis using l f u again by simp
qed

section \<open>More of what the operations keep\<close>

lemma setFrame_keeps:
  assumes "setFrame w s i = Inr s1"
  shows "length (sequence s1) = length (sequence s)" and "filenames s1 = filenames s"
    and "loaded s1 = loaded s" and "width s1 = width s" and "height s1 = height s"
    and "pc s1 = pc s" and "loading s1 = loading s"
    and "useThread s1 = useThread s" and "cancelLoading s1 = cancelLoading s"
    and "listening s1 = listening s"
proof -
  have "s1 = ofLogError ''ofxImageSequence::setFrame''
               ''Calling getFrame on unitialized image sequence.'' s
      \<or> s1 = ofLogError ''ofxImageSequence::setFrame'' ''Asking for negative index.'' s
      \<or> (\<exists>r s0. loadFrame w s r = Inr s0 \<and> s1 = s0\<lparr>currentFrame := r\<rparr>)"
    using assms by (auto simp: setFrame_def split: if_splits sum.splits)
  then show "length (sequence s1) = length (sequence s)" and "filenames s1 = filenames s"
    and "loaded s1 = loaded s" and "width s1 = width s" and "height s1 = height s"
    and "pc s1 = pc s" and "loading s1 = loading s"
    and "useThread s1 = useThread s" and "cancelLoading s1 = cancelLoading s"
    and "listening s1 = listening s"
    by (auto simp: ofLogError_def dest: loadFrame_keeps)
qed

lemma preloadAllFrames_loop_keeps:
  "preloadAllFrames_loop w s i = Inr s1 \<Longrightarrow>
     length (sequence s1) = length (sequence s) \<and> filenames s1 = filenames s
     \<and> loaded s1 = loaded s \<and> width s1 = width s \<and> height s1 = height s
     \<and> pc s1 = pc s \<and> loading s1 = loading s \<and> useThread s1 = useThread s
     \<and> cancelLoading s1 = cancelLoading s \<and> listening s1 = listening s
     \<and> currentFrame s1 = currentFrame s"
proof (induction w s i arbitrary: s1 rule: preloadAllFrames_loop.induct)
  case (1 w s i)
  show ?case
  proof (cases "i < length (sequence s) \<and> \<not> (useThread s \<and> cancelLoading s)")
    case False
    then have "s1 = s"
      using "1.prems" by (auto simp: preloadAllFrames_loop.simps [of w s i] split: if_splits)
    then show ?thesis by simp
  next
    case True
    then obtain s0 where d: "decode_slot w s i = Inr s0"
      and r: "preloadAllFrames_loop w s0 (i + 1) = Inr s1"
      using "1.prems" by (auto simp: preloadAllFrames_loop.simps [of w s i] split: sum.splits)
    have "length (sequence s1) = length (sequence s0) \<and> filenames s1 = filenames s0
     \<and> loaded s1 = loaded s0 \<and> width s1 = width s0 \<and> height s1 = height s0
     \<and> pc s1 = pc s0 \<and> loading s1 = loading s0 \<and> useThread s1 = useThread s0
     \<and> cancelLoading s1 = cancelLoading s0 \<and> listening s1 = listening s0
     \<and> currentFrame s1 = currentFrame s0"
      using "1.IH" [OF _ _ d r] True by blast
    then show ?thesis using decode_slot_keeps [OF d] by simp
  qed
qed

lemma preloadAllFrames_keeps:
  "preloadAllFrames w s = Inr s1 \<Longrightarrow>
     length (sequence s1) = length (sequence s) \<and> filenames s1 = filenames s
     \<and> loaded s1 = loaded s \<and> width s1 = width s \<and> height s1 = height s
     \<and> pc s1 = pc s \<and> loading s1 = loading s \<and> useThread s1 = useThread s
     \<and> cancelLoading s1 = cancelLoading s \<and> listening s1 = listening s"
  using preloadAllFrames_loop_keeps [of w s 0 s1]
  by (auto simp: preloadAllFrames_def ofLogError_def split: if_splits)

lemma preloadAllFilenames_keeps:
  assumes "preloadAllFilenames w s = (ok, s1)"
  shows "loaded s1 = loaded s" and "width s1 = width s" and "height s1 = height s"
    and "useThread s1 = useThread s" and "pc s1 = pc s" and "loading s1 = loading s"
    and "cancelLoading s1 = cancelLoading s" and "listening s1 = listening s"
    and "currentFrame s1 = currentFrame s"
    and "length (filenames s) = length (sequence s) \<Longrightarrow> length (filenames s1) = length (sequence s1)"
    and "sequence s \<noteq> [] \<Longrightarrow> sequence s1 \<noteq> []"
    and "ok \<Longrightarrow> sequence s1 \<noteq> []"
  using assms
  by (auto simp: preloadAllFilenames_def ofLogError_def Let_def min_def split: if_splits)

lemma thread_step_keeps:
  assumes "thread_step w s = Inr s1"
  shows "loaded s1 = loaded s" and "width s1 = width s" and "height s1 = height s"
    and "useThread s1 = useThread s" and "currentFrame s1 = currentFrame s"
proof -
  show "loaded s1 = loaded s" and "width s1 = width s" and "height s1 = height s"
    and "useThread s1 = useThread s" and "currentFrame s1 = currentFrame s"
    using assms
    by (cases "pc s";
        auto simp: thread_step_def ofLogError_def split: if_splits sum.splits prod.splits bool.splits
             dest: decode_slot_keeps preloadAllFilenames_keeps)+
qed


section \<open>The numbered pattern: examples\<close>

lemma show_nat_123: "show_nat 123 = ''123''"
  by (simp add: show_nat.simps digit_def)

lemmas pattern_defs = loadSequence_def unloadSequence_def pattern_loop.simps imagename_def
  plain_def conversion_def show_int_def show_nat.simps digit_def INT_MAX_def int32_def
  eval_nat_numeral

lemma conversion_examples:
  "conversion 3 7 = ''007''" "conversion 0 7 = ''7''" "conversion 3 (- 7) = ''-07''"
  "conversion (- 3) 7 = ''7  ''"
  by (simp_all add: pattern_defs)

lemma imagename_example: "imagename studio ''f'' ''png'' 3 1 = Inr ''f001.png''"
  by (simp add: pattern_defs)

lemma f_loaded: "loadSequence studio constructor ''f'' ''png'' 1 3 3 =
     Inr (True, constructor\<lparr>sequence := [Pixels 4 3 [], Unallocated, Unallocated],
            filenames := [''f001.png'', ''f002.png'', ''f003.png''], loaded := True,
            lastFrameLoaded := 0, width := 4, height := 3,
            texture := Pixels 4 3 [], uploads := 1\<rparr>)"
  by (simp add: pattern_defs waitForThread_idle constructor_def loadFrame_def ofLoadImage_def
      studio_def Let_def)


section \<open>Width and height\<close>

lemma run_thread_keeps:
  "run_thread w n s = Inr s1 \<Longrightarrow>
     loaded s1 = loaded s \<and> width s1 = width s \<and> height s1 = height s
     \<and> useThread s1 = useThread s \<and> currentFrame s1 = currentFrame s"
proof (induction n arbitrary: s)
  case 0
  then show ?case by simp
next
  case (Suc n)
  then obtain s0 where a: "thread_step w s = Inr s0" and b: "run_thread w n s0 = Inr s1"
    by (auto split: sum.splits)
  show ?case using Suc.IH [OF b] thread_step_keeps [OF a] by simp
qed

lemma unloadSequence_result:
  assumes "unloadSequence w s = Inr s1"
  shows "sequence s1 = []" and "filenames s1 = []" and "\<not> loaded s1"
    and "useThread s1 = useThread s" and "currentFrame s1 = currentFrame s"
  using assms run_thread_keeps [of w "thread_bound w s" s]
  by (auto simp: unloadSequence_def waitForThread_def split: sum.splits)













section \<open>The numbered pattern: the range test\<close>

lemma loadSequence_inverted_range:
  assumes "unloadSequence w s = Inr s0" and "endDigit < startDigit"
    and "int32 (endDigit - startDigit)"
  shows "loadSequence w s prefix filetype startDigit endDigit numDigits =
           Inr (False, ofLogError ''ofxImageSequence::loadSequence'' ''No image files found.'' s0)"
proof -
  have "int32 (endDigit - startDigit + 1)"
    using assms(2,3) by (simp add: int32_def INT_MAX_def)
  then show ?thesis using assms by (simp add: loadSequence_def)
qed

text \<open>
  Claim C6, at the input where the code departs from it: with \<open>startDigit = INT_MAX\<close> and
  \<open>endDigit = INT_MIN\<close> the range is inverted, and \<open>endDigit - startDigit\<close> overflows
  \<open>int\<close> before line 81 can test \<open>numFiles\<close>. The call does not return false.
\<close>

theorem loadSequence_inverted_range_overflows:
  "loadSequence w constructor ''f'' ''png'' 2147483647 (- 2147483648) 3 = Inl SignedOverflow"
  by (simp add: loadSequence_def unloadSequence_def waitForThread_idle constructor_def
      int32_def INT_MAX_def)

theorem loadSequence_inverted_range_overflows_witness:
  "loadSequence studio constructor ''f'' ''png'' 2147483647 (- 2147483648) 3 = Inl SignedOverflow"
  by (rule loadSequence_inverted_range_overflows [of studio])

section \<open>The current frame after a second load\<close>

lemma reload_session_result:
  "reload_session =
     Inr (constructor\<lparr>sequence := [Pixels 4 3 []], filenames := [''g001.png''],
            loaded := True, lastFrameLoaded := 0, currentFrame := 2, width := 4, height := 3,
            texture := Pixels 4 3 [], uploads := 3\<rparr>)"
  by (simp add: reload_session_def pattern_defs exec_defs waitForThread_idle studio_def
      constructor_def)

text \<open>
  Claim C5, at the execution where the code departs from it: after three frames are
  loaded and frame 2 is shown, a second load of one frame leaves the object loaded, with
  one entry, and with \<open>currentFrame\<close> still 2.
\<close>

theorem currentFrame_stale_after_reload:
  "\<not> isl reload_session \<and> loaded (projr reload_session)
   \<and> length (sequence (projr reload_session)) = 1
   \<and> currentFrame (projr reload_session) = 2"
  unfolding reload_session_result by (simp add: constructor_def)

section \<open>Percent and index\<close>

lemmas float_defs = fl32_def binade.simps pow2_def round_even_def Let_def

lemma fl32_examples:
  "fl32 0 = 0" "fl32 1 = 1" "fl32 (1 / 4) = 1 / 4" "fl32 (13 / 4) = 13 / 4"
  "fl32 (1 / 10) = 13421773 / 134217728" "fl32 (2 ^ 64 - 1) = 2 ^ 64"
  by (simp_all add: float_defs)

lemma frames_length: "length (sequence (frames n)) = n"
  by (simp add: frames_def)

lemma percent_4096_of_4098:
  "getPercentAtFrameIndex (frames 4098) 4096 = 16773121 / 16777216"
  by (simp add: getPercentAtFrameIndex_def ofMap_def size_minus_1_def frames_length
      FLT_EPSILON_def float_defs)

text \<open>
  Claim C3, at the input where the code departs from it: in a sequence of 4098 frames the
  percent of index 4096 is \<open>4096 / 4097\<close> rounded to \<open>float\<close>, which is
  \<open>16773121 / 2^24\<close>; its \<open>float\<close> product with 4098 is \<open>4097 - 4094 / 2^24\<close> rounded
  to \<open>float\<close>, which is 4097; the index returned is 4097.
\<close>

theorem percent_round_trip_4098:
  "getFrameIndexAtPercent (frames 4098) (getPercentAtFrameIndex (frames 4098) 4096) = Inr 4097"
proof -
  have a: "fl32 4098 = 4098" by (simp add: float_defs)
  have b: "fl32 (34368124929 / 8388608) = 4097" by (simp add: float_defs)
  show ?thesis
    unfolding percent_4096_of_4098
    by (simp add: getFrameIndexAtPercent_def size_minus_1_def frames_length c_trunc_def
        int32_def INT_MAX_def Let_def a b)
qed

lemma percent_round_trip_small:
  "getFrameIndexAtPercent (frames 3) (getPercentAtFrameIndex (frames 3) 1) = Inr 1"
proof -
  have p: "getPercentAtFrameIndex (frames 3) 1 = 1 / 2"
    by (simp add: getPercentAtFrameIndex_def ofMap_def size_minus_1_def frames_length
        FLT_EPSILON_def float_defs)
  have a: "fl32 3 = 3" by (simp add: float_defs)
  have b: "fl32 (3 / 2) = 3 / 2" by (simp add: float_defs)
  show ?thesis
    unfolding p
    by (simp add: getFrameIndexAtPercent_def size_minus_1_def frames_length c_trunc_def
        int32_def INT_MAX_def Let_def a b)
qed

text \<open>
  Without rounding the round trip is exact: the product of \<open>i / (n - 1)\<close> and \<open>n\<close>
  lies between \<open>i\<close> and \<open>i + 1\<close> for every index below the last.
\<close>

lemma exact_round_trip:
  assumes "0 \<le> i" and "i < n - 1"
  shows "\<lfloor>of_int i / of_int (n - 1) * of_int n :: real\<rfloor> = i"
proof -
  have m: "(0::real) < of_int (n - 1)" using assms by simp
  have e: "of_int i / of_int (n - 1) * of_int n = (of_int i :: real) + of_int i / of_int (n - 1)"
    using m by (simp add: field_simps)
  have "(0::real) \<le> of_int i / of_int (n - 1)" using assms m by simp
  moreover have "of_int i / of_int (n - 1) < (1::real)" using assms m by simp
  ultimately show ?thesis unfolding e by (simp add: floor_eq_iff)
qed

text \<open>
  Claim C4 as stated fails at \<open>p = 1\<close>: line 338 leaves the percent 1 as it is, which
  gives the last index, and wraps the percent 2 to 0, which gives index 0.
\<close>

theorem percent_one_not_periodic_counterexample:
  "getFrameIndexAtPercent (frames 2) 1 = Inr 1
   \<and> getFrameIndexAtPercent (frames 2) (1 + 1) = Inr 0"
proof -
  have a: "fl32 2 = 2" and b: "fl32 0 = 0" by (simp_all add: float_defs)
  show ?thesis
    by (simp add: getFrameIndexAtPercent_def size_minus_1_def frames_length c_trunc_def
        int32_def INT_MAX_def Let_def a b)
qed

lemma wrapped_percent:
  assumes "is_float p" and "p \<noteq> 1"
  shows "(if p < 0 \<or> 1 < p then fl32 (p - of_int \<lfloor>p\<rfloor>) else p) = fl32 (frac p)"
proof (cases "p < 0 \<or> 1 < p")
  case True
  then show ?thesis by (simp add: frac_def)
next
  case False
  then have "0 \<le> p" "p < 1" using assms(2) by simp_all
  then have "frac p = p" by (simp add: frac_eq)
  then show ?thesis using False assms(1) by (simp add: is_float_def)
qed

text \<open>
  Claim C4, as amended. For a \<open>float\<close> percent \<open>p\<close> and an integer \<open>k\<close> such that
  \<open>p + k\<close> is a \<open>float\<close> too, and neither is 1, the index at \<open>p + k\<close> is the index at
  \<open>p\<close>.
\<close>

theorem percent_index_periodic:
  assumes "is_float p" and "is_float (p + of_int k)" and "p \<noteq> 1" and "p + of_int k \<noteq> 1"
  shows "getFrameIndexAtPercent s (p + of_int k) = getFrameIndexAtPercent s p"
proof -
  have "frac (p + of_int k) = frac p" by (simp add: frac_def)
  then have "(if p + of_int k < 0 \<or> 1 < p + of_int k
              then fl32 (p + of_int k - of_int \<lfloor>p + of_int k\<rfloor>) else p + of_int k)
           = (if p < 0 \<or> 1 < p then fl32 (p - of_int \<lfloor>p\<rfloor>) else p)"
    using wrapped_percent [OF assms(1,3)] wrapped_percent [OF assms(2,4)] by simp
  then show ?thesis by (simp only: getFrameIndexAtPercent_def)
qed

theorem percent_index_periodic_witness:
  "is_float (1 / 4) \<and> is_float (1 / 4 + of_int 3) \<and> (1 / 4 :: real) \<noteq> 1
   \<and> (1 / 4 + of_int 3 :: real) \<noteq> 1
   \<and> getFrameIndexAtPercent (frames 8) (1 / 4 + of_int 3) = Inr 2
   \<and> getFrameIndexAtPercent (frames 8) (1 / 4) = Inr 2"
proof -
  have a: "is_float (1 / 4)" and b: "is_float (1 / 4 + of_int 3)"
    by (simp_all add: is_float_def float_defs)
  have c: "(1 / 4 :: real) \<noteq> 1" and d: "(1 / 4 + of_int 3 :: real) \<noteq> 1" by simp_all
  have f8: "fl32 8 = 8" and f2: "fl32 2 = 2" by (simp_all add: float_defs)
  have e: "getFrameIndexAtPercent (frames 8) (1 / 4) = Inr 2"
    by (simp add: getFrameIndexAtPercent_def size_minus_1_def frames_length c_trunc_def
        int32_def INT_MAX_def Let_def f8 f2)
  show ?thesis
    using percent_index_periodic [OF a b c d, of "frames 8"] a b c d e by simp
qed

section \<open>The thread returns\<close>

lemma preloadAllFilenames_length:
  "preloadAllFilenames w s = (ok, s1) \<Longrightarrow>
     length (sequence s1) \<le> length (sequence s) + length (listDir w (extension s) (folderToLoad s))"
  by (auto simp: preloadAllFilenames_def ofLogError_def Let_def min_def split: if_splits)

lemma thread_step_decreases:
  assumes "thread_step w s = Inr s1" and "pc s \<noteq> NotRunning"
  shows "steps_left w s1 < steps_left w s"
proof (cases "pc s")
  case L190
  obtain ok s0 where p: "preloadAllFilenames w s = (ok, s0)" by (cases "preloadAllFilenames w s")
  have "s1 = s0\<lparr>loading := False, pc := NotRunning\<rparr> \<or> s1 = s0\<lparr>pc := L195\<rparr>"
    using assms(1) p L190 by (cases ok) (auto simp: thread_step_def)
  then show ?thesis
    using preloadAllFilenames_length [OF p] L190 by (auto simp: steps_left_def)
next
  case (Decode i)
  then obtain s0 where d: "decode_slot w s i = Inr s0" and s1: "s1 = s0\<lparr>pc := Loop (i + 1)\<rparr>"
    using assms(1) by (auto simp: thread_step_def split: sum.splits)
  have "i < length (sequence s)" using d by (auto simp: decode_slot_def split: if_splits)
  then show ?thesis
    using decode_slot_keeps(1) [OF d] s1 Decode by (simp add: steps_left_def)
qed (insert assms, auto simp: thread_step_def steps_left_def ofLogError_def split: if_splits)

lemma run_thread_joins:
  "run_thread w n s = Inr s1 \<Longrightarrow> steps_left w s \<le> n \<Longrightarrow> pc s1 = NotRunning"
proof (induction n arbitrary: s)
  case 0
  then show ?case by (cases "pc s") (simp_all add: steps_left_def)
next
  case (Suc n)
  then obtain s0 where a: "thread_step w s = Inr s0" and b: "run_thread w n s0 = Inr s1"
    by (auto split: sum.splits)
  show ?case
  proof (cases "pc s = NotRunning")
    case True
    then have "s0 = s" using a by (simp add: thread_step_def)
    then have "run_thread w n s = Inr s1" using b by simp
    then show ?thesis using True by (simp add: run_thread_idle)
  next
    case False
    then have "steps_left w s0 \<le> n"
      using thread_step_decreases [OF a] Suc.prems(2) by simp
    then show ?thesis using Suc.IH [OF b] by simp
  qed
qed

lemma steps_left_bound: "steps_left w s \<le> thread_bound w s"
  by (cases "pc s") (simp_all add: steps_left_def thread_bound_def)

text \<open>
  \<open>waitForThread\<close> runs the thread long enough: when it returns, the thread has
  returned.
\<close>

lemma waitForThread_joins: "waitForThread w s = Inr s1 \<Longrightarrow> pc s1 = NotRunning"
  unfolding waitForThread_def using run_thread_joins steps_left_bound by blast

section \<open>The invariant of the two vectors\<close>

lemma wellformed_constructor: "wellformed constructor"
  by (simp add: wellformed_def constructor_def)

lemma wellformed_ofLogError: "wellformed (ofLogError a b s) = wellformed s"
  by (simp add: wellformed_def ofLogError_def)

lemma wellformed_loadFrame: "loadFrame w s i = Inr s1 \<Longrightarrow> wellformed s \<Longrightarrow> wellformed s1"
  using loadFrame_keeps(1,2,3) [of w s i s1] by (auto simp: wellformed_def)

lemma wellformed_setFrame: "setFrame w s i = Inr s1 \<Longrightarrow> wellformed s \<Longrightarrow> wellformed s1"
  using setFrame_keeps(1,2,3) [of w s i s1] by (auto simp: wellformed_def)

lemma wellformed_decode_slot: "decode_slot w s i = Inr s1 \<Longrightarrow> wellformed s \<Longrightarrow> wellformed s1"
  using decode_slot_keeps(1,2,3) [of w s i s1] by (auto simp: wellformed_def)

lemma wellformed_preloadAllFrames: "preloadAllFrames w s = Inr s1 \<Longrightarrow> wellformed s \<Longrightarrow> wellformed s1"
  using preloadAllFrames_keeps [of w s s1] by (auto simp: wellformed_def)

lemma wellformed_preloadAllFilenames: "preloadAllFilenames w s = (ok, s1) \<Longrightarrow> wellformed s \<Longrightarrow> wellformed s1"
  using preloadAllFilenames_keeps(1,10,11) [of w s ok s1] by (auto simp: wellformed_def)

lemma wellformed_thread_step: "thread_step w s = Inr s1 \<Longrightarrow> wellformed s \<Longrightarrow> wellformed s1"
proof (cases "pc s")
  case L190
  assume a: "thread_step w s = Inr s1" and i: "wellformed s"
  obtain ok s0 where p: "preloadAllFilenames w s = (ok, s0)" by (cases "preloadAllFilenames w s")
  have "wellformed s0" using wellformed_preloadAllFilenames [OF p i] .
  moreover have "s1 = s0\<lparr>loading := False, pc := NotRunning\<rparr> \<or> s1 = s0\<lparr>pc := L195\<rparr>"
    using a p L190 by (cases ok) (auto simp: thread_step_def)
  ultimately show ?thesis by (auto simp: wellformed_def)
next
  case (Decode i)
  assume a: "thread_step w s = Inr s1" and i: "wellformed s"
  then obtain s0 where d: "decode_slot w s i = Inr s0" and s1: "s1 = s0\<lparr>pc := Loop (i + 1)\<rparr>"
    using Decode by (auto simp: thread_step_def split: sum.splits)
  show ?thesis using wellformed_decode_slot [OF d i] s1 by (simp add: wellformed_def)
qed (auto simp: thread_step_def wellformed_def ofLogError_def split: if_splits)

lemma wellformed_run_thread: "run_thread w n s = Inr s1 \<Longrightarrow> wellformed s \<Longrightarrow> wellformed s1"
proof (induction n arbitrary: s)
  case 0
  then show ?case by simp
next
  case (Suc n)
  then obtain s0 where a: "thread_step w s = Inr s0" and b: "run_thread w n s0 = Inr s1"
    by (auto split: sum.splits)
  show ?case using Suc.IH [OF b wellformed_thread_step [OF a Suc.prems(2)]] .
qed

lemma wellformed_unloadSequence: "unloadSequence w s = Inr s1 \<Longrightarrow> wellformed s1"
  using unloadSequence_result(1,2,3) [of w s s1] by (simp add: wellformed_def)

lemma wellformed_completeLoading: "completeLoading w s = Inr s1 \<Longrightarrow> wellformed s \<Longrightarrow> wellformed s1"
proof (cases "sequence s = []")
  case True
  assume "completeLoading w s = Inr s1" and "wellformed s"
  then show ?thesis using True by (auto simp: completeLoading_def wellformed_ofLogError)
next
  case False
  assume a: "completeLoading w s = Inr s1" and i: "wellformed s"
  obtain s0 p ps where lf: "loadFrame w (s\<lparr>loaded := True, lastFrameLoaded := - 1\<rparr>) 0 = Inr s0"
    and s1: "s1 = s0\<lparr>width := getWidthPx p, height := getHeightPx p\<rparr>"
    using a False by (auto simp: completeLoading_def split: sum.splits list.splits)
  have "wellformed (s\<lparr>loaded := True, lastFrameLoaded := - 1\<rparr>)" using i False by (simp add: wellformed_def)
  then show ?thesis using wellformed_loadFrame [OF lf] s1 by (simp add: wellformed_def)
qed

lemma pattern_loop_keeps:
  "pattern_loop w prefix filetype numDigits s i endDigit = Inr s1 \<Longrightarrow>
     (length (filenames s) = length (sequence s) \<longrightarrow>
        length (filenames s1) = length (sequence s1))
     \<and> length (sequence s1) = length (sequence s) + nat (endDigit + 1 - i)
     \<and> loaded s1 = loaded s \<and> currentFrame s1 = currentFrame s \<and> pc s1 = pc s"
proof (induction w prefix filetype numDigits s i endDigit arbitrary: s1
       rule: pattern_loop.induct)
  case (1 w prefix filetype numDigits s i endDigit)
  show ?case
  proof (cases "i \<le> endDigit")
    case False
    then show ?thesis
      using "1.prems"
      by (simp add: pattern_loop.simps [of w prefix filetype numDigits s i endDigit])
  next
    case True
    obtain name where n: "imagename w prefix filetype numDigits i = Inr name"
      and m: "i \<noteq> INT_MAX"
      and r: "pattern_loop w prefix filetype numDigits
                (s\<lparr>filenames := filenames s @ [name],
                   sequence := sequence s @ [Unallocated]\<rparr>) (i + 1) endDigit = Inr s1"
      using "1.prems" True
      by (auto simp: pattern_loop.simps [of w prefix filetype numDigits s i endDigit]
          split: sum.splits if_splits)
    have e: "nat (endDigit + 1 - i) = Suc (nat (endDigit + 1 - (i + 1)))" using True by simp
    show ?thesis using "1.IH" [OF True n m r] e by simp
  qed
qed

lemma wellformed_loadSequence:
  assumes "loadSequence w s prefix filetype startDigit endDigit numDigits = Inr (ok, s1)"
  shows "wellformed s1"
proof -
  obtain s0 where u: "unloadSequence w s = Inr s0"
    using assms by (auto simp: loadSequence_def split: sum.splits)
  note i0 = wellformed_unloadSequence [OF u]
  show ?thesis
  proof (cases "endDigit - startDigit + 1 \<le> 0")
    case True
    then have "s1 = ofLogError ''ofxImageSequence::loadSequence'' ''No image files found.'' s0"
      using assms u by (auto simp: loadSequence_def split: if_splits)
    then show ?thesis using i0 by (simp add: wellformed_ofLogError)
  next
    case False
    then obtain s2 s3 p ps where
      pl: "pattern_loop w prefix filetype numDigits s0 startDigit endDigit = Inr s2"
      and lf: "loadFrame w (s2\<lparr>loaded := True, lastFrameLoaded := - 1\<rparr>) 0 = Inr s3"
      and sq: "sequence s3 = p # ps"
      and s1: "s1 = s3\<lparr>width := getWidthPx p, height := getHeightPx p\<rparr>"
      using assms u
      by (auto simp: loadSequence_def Let_def split: sum.splits list.splits if_splits)
    have "length (filenames s2) = length (sequence s2)"
      using pattern_loop_keeps [OF pl] i0 by (simp add: wellformed_def)
    then have "length (filenames s3) = length (sequence s3)"
      using loadFrame_keeps(1,2) [OF lf] by simp
    then show ?thesis using sq s1 by (simp add: wellformed_def)
  qed
qed

lemma wrap32_id: "int32 x \<Longrightarrow> wrap32 x = x"
  by (simp add: wrap32_def int32_def INT_MAX_def)

text \<open>Where \<open>loadSequence\<close> has a result, the wrapping build has the same.\<close>

lemma loadSequence_wrapping_agrees:
  assumes "loadSequence w s prefix filetype startDigit endDigit numDigits = Inr r"
  shows "loadSequence_wrapping w s prefix filetype startDigit endDigit numDigits stale = Inr r"
proof -
  obtain s0 where u: "unloadSequence w s = Inr s0"
    using assms by (auto simp: loadSequence_def split: sum.splits)
  have i: "int32 (endDigit - startDigit)" "int32 (endDigit - startDigit + 1)"
    using assms u by (auto simp: loadSequence_def split: if_splits)
  have n: "wrap32 (wrap32 (endDigit - startDigit) + 1) = endDigit - startDigit + 1"
    using i by (simp add: wrap32_id)
  show ?thesis
    using assms u i
    by (auto simp: loadSequence_def loadSequence_wrapping_def n Let_def
        split: sum.splits list.splits if_splits)
qed

lemma loadSequence_wrapping_cases:
  assumes "loadSequence_wrapping w s prefix filetype startDigit endDigit numDigits stale
             = Inr (ok, s1)"
  shows "\<exists>s0. unloadSequence w s = Inr s0
           \<and> (s1 = ofLogError ''ofxImageSequence::loadSequence'' ''No image files found.'' s0
              \<or> (\<exists>s2 s3 p.
                   pattern_loop w prefix filetype numDigits s0 startDigit endDigit = Inr s2
                   \<and> loadFrame w (s2\<lparr>loaded := True, lastFrameLoaded := - 1\<rparr>) 0 = Inr s3
                   \<and> s1 = s3\<lparr>width := getWidthPx p, height := getHeightPx p\<rparr>))"
proof -
  obtain s0 where u: "unloadSequence w s = Inr s0"
    using assms by (auto simp: loadSequence_wrapping_def split: sum.splits)
  show ?thesis
  proof (cases "wrap32 (wrap32 (endDigit - startDigit) + 1) \<le> 0")
    case True
    then have "s1 = ofLogError ''ofxImageSequence::loadSequence'' ''No image files found.'' s0"
      using assms u by (simp add: loadSequence_wrapping_def)
    then show ?thesis using u by simp
  next
    case False
    then obtain s2 s3 where
      pl: "pattern_loop w prefix filetype numDigits s0 startDigit endDigit = Inr s2"
      and lf: "loadFrame w (s2\<lparr>loaded := True, lastFrameLoaded := - 1\<rparr>) 0 = Inr s3"
      and s1: "s1 = s3\<lparr>width := getWidthPx (case sequence s3 of [] \<Rightarrow> stale | p # ps \<Rightarrow> p),
                       height := getHeightPx (case sequence s3 of [] \<Rightarrow> stale | p # ps \<Rightarrow> p)\<rparr>"
      using assms u
      by (auto simp: loadSequence_wrapping_def Let_def split: sum.splits)
    show ?thesis using u pl lf s1 by blast
  qed
qed

lemma wellformed_loadSequence_wrapping:
  assumes "loadSequence_wrapping w s prefix filetype startDigit endDigit numDigits stale
             = Inr (ok, s1)"
  shows "wellformed s1"
proof -
  from loadSequence_wrapping_cases [OF assms] obtain s0 where
    u: "unloadSequence w s = Inr s0"
    and c: "s1 = ofLogError ''ofxImageSequence::loadSequence'' ''No image files found.'' s0
         \<or> (\<exists>s2 s3 p.
              pattern_loop w prefix filetype numDigits s0 startDigit endDigit = Inr s2
              \<and> loadFrame w (s2\<lparr>loaded := True, lastFrameLoaded := - 1\<rparr>) 0 = Inr s3
              \<and> s1 = s3\<lparr>width := getWidthPx p, height := getHeightPx p\<rparr>)"
    by blast
  note i0 = wellformed_unloadSequence [OF u]
  from c show ?thesis
  proof (elim disjE exE conjE)
    assume "s1 = ofLogError ''ofxImageSequence::loadSequence'' ''No image files found.'' s0"
    then show ?thesis using i0 by (simp add: wellformed_ofLogError)
  next
    fix s2 s3 p
    assume pl: "pattern_loop w prefix filetype numDigits s0 startDigit endDigit = Inr s2"
      and lf: "loadFrame w (s2\<lparr>loaded := True, lastFrameLoaded := - 1\<rparr>) 0 = Inr s3"
      and s1: "s1 = s3\<lparr>width := getWidthPx p, height := getHeightPx p\<rparr>"
    have "length (filenames s2) = length (sequence s2)"
      using pattern_loop_keeps [OF pl] i0 by (simp add: wellformed_def)
    then have "length (filenames s3) = length (sequence s3)"
      using loadFrame_keeps(1,2) [OF lf] by simp
    then show ?thesis using s1 by (simp add: wellformed_def)
  qed
qed

lemma wellformed_loadSequence_folder:
  assumes "loadSequence_folder w s folder = Inr (ok, s1)"
  shows "wellformed s1"
proof -
  obtain s0 where u: "unloadSequence w s = Inr s0"
    using assms by (auto simp: loadSequence_folder_def split: sum.splits)
  let ?s2 = "s0\<lparr>folderToLoad := folder\<rparr>"
  have i2: "wellformed ?s2" using wellformed_unloadSequence [OF u] by (simp add: wellformed_def)
  show ?thesis
  proof (cases "useThread ?s2")
    case True
    then have "s1 = ?s2\<lparr>pc := L185\<rparr>"
      using assms u by (auto simp: loadSequence_folder_def Let_def)
    then show ?thesis using i2 by (simp add: wellformed_def)
  next
    case False
    obtain b s3 where p: "preloadAllFilenames w ?s2 = (b, s3)"
      by (cases "preloadAllFilenames w ?s2")
    note i3 = wellformed_preloadAllFilenames [OF p i2]
    show ?thesis
    proof (cases b)
      case True
      then have "completeLoading w s3 = Inr s1"
        using assms u False p by (auto simp: loadSequence_folder_def Let_def split: sum.splits)
      then show ?thesis using wellformed_completeLoading i3 by blast
    next
      case f: False
      then have "s1 = s3"
        using assms u False p by (auto simp: loadSequence_folder_def Let_def)
      then show ?thesis using i3 by simp
    qed
  qed
qed

lemma wellformed_update_event: "update_event w s = Inr s1 \<Longrightarrow> wellformed s \<Longrightarrow> wellformed s1"
proof -
  assume a: "update_event w s = Inr s1" and i: "wellformed s"
  have "s1 = s \<or> s1 = s\<lparr>listening := False\<rparr>
        \<or> completeLoading w (s\<lparr>listening := False\<rparr>) = Inr s1"
    using a by (auto simp: update_event_def updateThreadedLoad_def Let_def split: if_splits)
  moreover have "wellformed (s\<lparr>listening := False\<rparr>)" using i by (simp add: wellformed_def)
  ultimately show ?thesis using i wellformed_completeLoading by auto
qed

lemma map_sum_snd_Inr: "map_sum id snd x = Inr s1 \<Longrightarrow> \<exists>ok. x = Inr (ok, s1)"
  by (cases x) auto

lemma wellformed_call_step:
  assumes "call_step w s c = Inr s1" and "wellformed s"
  shows "wellformed s1"
proof (cases c)
  case (LoadPattern prefix filetype startDigit endDigit numDigits)
  then have "map_sum id snd (loadSequence w s prefix filetype startDigit endDigit numDigits)
      = Inr s1"
    using assms(1) by simp
  from map_sum_snd_Inr [OF this] obtain ok where
    "loadSequence w s prefix filetype startDigit endDigit numDigits = Inr (ok, s1)" ..
  then show ?thesis by (rule wellformed_loadSequence)
next
  case (LoadFolder folder)
  then have "map_sum id snd (loadSequence_folder w s folder) = Inr s1"
    using assms(1) by simp
  from map_sum_snd_Inr [OF this] obtain ok where
    "loadSequence_folder w s folder = Inr (ok, s1)" ..
  then show ?thesis by (rule wellformed_loadSequence_folder)
next
  case Unload
  then have "unloadSequence w s = Inr s1" using assms(1) by simp
  then show ?thesis by (rule wellformed_unloadSequence)
next
  case (SetFrame index)
  then have "setFrame w s index = Inr s1" using assms(1) by simp
  then show ?thesis using assms(2) by (rule wellformed_setFrame)
next
  case (SetFrameAtPercent percent)
  then obtain index where "setFrame w s index = Inr s1"
    using assms(1) by (auto simp: setFrameAtPercent_def split: sum.splits)
  then show ?thesis using assms(2) by (rule wellformed_setFrame)
next
  case PreloadAllFrames
  then have "preloadAllFrames w s = Inr s1" using assms(1) by simp
  then show ?thesis using assms(2) by (rule wellformed_preloadAllFrames)
next
  case (SetMaxFrames n)
  then have "s1 = setMaxFrames s n" using assms(1) by simp
  then show ?thesis
    using assms(2) by (simp add: setMaxFrames_def Let_def wellformed_def ofLogError_def)
next
  case (SetExtension ext)
  then have "s1 = setExtension s ext" using assms(1) by simp
  then show ?thesis using assms(2) by (simp add: setExtension_def wellformed_def)
next
  case (EnableThreadedLoad enable)
  then have "s1 = enableThreadedLoad s enable" using assms(1) by simp
  then show ?thesis
    using assms(2) by (simp add: enableThreadedLoad_def Let_def wellformed_def ofLogError_def)
next
  case CancelLoad
  then have "s1 = cancelLoad s" using assms(1) by simp
  then show ?thesis using assms(2) by (simp add: cancelLoad_def wellformed_def)
next
  case (SetFrameRate rate)
  then have "s1 = setFrameRate s rate" using assms(1) by simp
  then show ?thesis using assms(2) by (simp add: setFrameRate_def wellformed_def)
next
  case ThreadStep
  then have "thread_step w s = Inr s1" using assms(1) by simp
  then show ?thesis using assms(2) by (rule wellformed_thread_step)
next
  case UpdateEvent
  then have "update_event w s = Inr s1" using assms(1) by simp
  then show ?thesis using assms(2) by (rule wellformed_update_event)
qed

lemma reachable_wellformed: "reachable w s \<Longrightarrow> wellformed s"
proof (induction rule: reachable.induct)
  case reachable_constructor
  show ?case by (rule wellformed_constructor)
next
  case (reachable_step s c s1)
  show ?case using wellformed_call_step [OF reachable_step.hyps(2) reachable_step.IH] .
next
  case (reachable_wrapping s startDigit endDigit numDigits prefix filetype stale ok s1)
  show ?case using wellformed_loadSequence_wrapping [OF reachable_wrapping.hyps(5)] .
qed

lemma run_reachable: "reachable w s \<Longrightarrow> run w s cs = Inr s1 \<Longrightarrow> reachable w s1"
proof (induction cs arbitrary: s)
  case Nil
  then show ?case by simp
next
  case (Cons c cs)
  then obtain s0 where a: "call_step w s c = Inr s0" and b: "run w s0 cs = Inr s1"
    by (auto split: sum.splits)
  show ?case using Cons.IH [OF reachable_step [OF Cons.prems(1) a] b] .
qed

section \<open>Loaded objects and their entries\<close>

text \<open>
  Every step that has a result keeps a loaded object from being empty: \<open>loaded\<close> is
  set by \<open>completeLoading\<close> behind the test of line 129, and by the pattern load after
  a loop that has run at least once when \<open>numFiles\<close> was computed without overflow.
\<close>

lemma entries_ok_constructor: "entries_ok constructor"
  by (simp add: entries_ok_def constructor_def)

lemma entries_ok_ofLogError: "entries_ok (ofLogError a b s) = entries_ok s"
  by (simp add: entries_ok_def ofLogError_def)

lemma entries_ok_loadFrame: "loadFrame w s i = Inr s1 \<Longrightarrow> entries_ok s \<Longrightarrow> entries_ok s1"
  using loadFrame_keeps(1,2,3) [of w s i s1] by (auto simp: entries_ok_def)

lemma entries_ok_setFrame: "setFrame w s i = Inr s1 \<Longrightarrow> entries_ok s \<Longrightarrow> entries_ok s1"
  using setFrame_keeps(1,2,3) [of w s i s1] by (auto simp: entries_ok_def)

lemma entries_ok_decode_slot: "decode_slot w s i = Inr s1 \<Longrightarrow> entries_ok s \<Longrightarrow> entries_ok s1"
  using decode_slot_keeps(1,2,3) [of w s i s1] by (auto simp: entries_ok_def)

lemma entries_ok_preloadAllFrames: "preloadAllFrames w s = Inr s1 \<Longrightarrow> entries_ok s \<Longrightarrow> entries_ok s1"
  using preloadAllFrames_keeps [of w s s1] by (auto simp: entries_ok_def)

lemma entries_ok_preloadAllFilenames: "preloadAllFilenames w s = (ok, s1) \<Longrightarrow> entries_ok s \<Longrightarrow> entries_ok s1"
  using preloadAllFilenames_keeps(1,10,11) [of w s ok s1] by (auto simp: entries_ok_def)

lemma entries_ok_thread_step: "thread_step w s = Inr s1 \<Longrightarrow> entries_ok s \<Longrightarrow> entries_ok s1"
proof (cases "pc s")
  case L190
  assume a: "thread_step w s = Inr s1" and i: "entries_ok s"
  obtain ok s0 where p: "preloadAllFilenames w s = (ok, s0)" by (cases "preloadAllFilenames w s")
  have "entries_ok s0" using entries_ok_preloadAllFilenames [OF p i] .
  moreover have "s1 = s0\<lparr>loading := False, pc := NotRunning\<rparr> \<or> s1 = s0\<lparr>pc := L195\<rparr>"
    using a p L190 by (cases ok) (auto simp: thread_step_def)
  ultimately show ?thesis by (auto simp: entries_ok_def)
next
  case (Decode i)
  assume a: "thread_step w s = Inr s1" and i: "entries_ok s"
  then obtain s0 where d: "decode_slot w s i = Inr s0" and s1: "s1 = s0\<lparr>pc := Loop (i + 1)\<rparr>"
    using Decode by (auto simp: thread_step_def split: sum.splits)
  show ?thesis using entries_ok_decode_slot [OF d i] s1 by (simp add: entries_ok_def)
qed (auto simp: thread_step_def entries_ok_def ofLogError_def split: if_splits)

lemma entries_ok_run_thread: "run_thread w n s = Inr s1 \<Longrightarrow> entries_ok s \<Longrightarrow> entries_ok s1"
proof (induction n arbitrary: s)
  case 0
  then show ?case by simp
next
  case (Suc n)
  then obtain s0 where a: "thread_step w s = Inr s0" and b: "run_thread w n s0 = Inr s1"
    by (auto split: sum.splits)
  show ?case using Suc.IH [OF b entries_ok_thread_step [OF a Suc.prems(2)]] .
qed

lemma entries_ok_unloadSequence: "unloadSequence w s = Inr s1 \<Longrightarrow> entries_ok s1"
  using unloadSequence_result(1,2,3) [of w s s1] by (simp add: entries_ok_def)

lemma entries_ok_completeLoading: "completeLoading w s = Inr s1 \<Longrightarrow> entries_ok s \<Longrightarrow> entries_ok s1"
proof (cases "sequence s = []")
  case True
  assume "completeLoading w s = Inr s1" and "entries_ok s"
  then show ?thesis using True by (auto simp: completeLoading_def entries_ok_ofLogError)
next
  case False
  assume a: "completeLoading w s = Inr s1" and i: "entries_ok s"
  obtain s0 p ps where lf: "loadFrame w (s\<lparr>loaded := True, lastFrameLoaded := - 1\<rparr>) 0 = Inr s0"
    and s1: "s1 = s0\<lparr>width := getWidthPx p, height := getHeightPx p\<rparr>"
    using a False by (auto simp: completeLoading_def split: sum.splits list.splits)
  have "entries_ok (s\<lparr>loaded := True, lastFrameLoaded := - 1\<rparr>)" using i False by (simp add: entries_ok_def)
  then show ?thesis using entries_ok_loadFrame [OF lf] s1 by (simp add: entries_ok_def)
qed

lemma entries_ok_loadSequence:
  assumes "loadSequence w s prefix filetype startDigit endDigit numDigits = Inr (ok, s1)"
  shows "entries_ok s1"
proof -
  obtain s0 where u: "unloadSequence w s = Inr s0"
    using assms by (auto simp: loadSequence_def split: sum.splits)
  note i0 = entries_ok_unloadSequence [OF u]
  show ?thesis
  proof (cases "endDigit - startDigit + 1 \<le> 0")
    case True
    then have "s1 = ofLogError ''ofxImageSequence::loadSequence'' ''No image files found.'' s0"
      using assms u by (auto simp: loadSequence_def split: if_splits)
    then show ?thesis using i0 by (simp add: entries_ok_ofLogError)
  next
    case False
    then obtain s2 s3 p ps where
      pl: "pattern_loop w prefix filetype numDigits s0 startDigit endDigit = Inr s2"
      and lf: "loadFrame w (s2\<lparr>loaded := True, lastFrameLoaded := - 1\<rparr>) 0 = Inr s3"
      and sq: "sequence s3 = p # ps"
      and s1: "s1 = s3\<lparr>width := getWidthPx p, height := getHeightPx p\<rparr>"
      using assms u
      by (auto simp: loadSequence_def Let_def split: sum.splits list.splits if_splits)
    have "length (filenames s2) = length (sequence s2)"
      using pattern_loop_keeps [OF pl] i0 by (simp add: entries_ok_def)
    then have "length (filenames s3) = length (sequence s3)"
      using loadFrame_keeps(1,2) [OF lf] by simp
    then show ?thesis using sq s1 by (simp add: entries_ok_def)
  qed
qed

lemma entries_ok_loadSequence_folder:
  assumes "loadSequence_folder w s folder = Inr (ok, s1)"
  shows "entries_ok s1"
proof -
  obtain s0 where u: "unloadSequence w s = Inr s0"
    using assms by (auto simp: loadSequence_folder_def split: sum.splits)
  let ?s2 = "s0\<lparr>folderToLoad := folder\<rparr>"
  have i2: "entries_ok ?s2" using entries_ok_unloadSequence [OF u] by (simp add: entries_ok_def)
  show ?thesis
  proof (cases "useThread ?s2")
    case True
    then have "s1 = ?s2\<lparr>pc := L185\<rparr>"
      using assms u by (auto simp: loadSequence_folder_def Let_def)
    then show ?thesis using i2 by (simp add: entries_ok_def)
  next
    case False
    obtain b s3 where p: "preloadAllFilenames w ?s2 = (b, s3)"
      by (cases "preloadAllFilenames w ?s2")
    note i3 = entries_ok_preloadAllFilenames [OF p i2]
    show ?thesis
    proof (cases b)
      case True
      then have "completeLoading w s3 = Inr s1"
        using assms u False p by (auto simp: loadSequence_folder_def Let_def split: sum.splits)
      then show ?thesis using entries_ok_completeLoading i3 by blast
    next
      case f: False
      then have "s1 = s3"
        using assms u False p by (auto simp: loadSequence_folder_def Let_def)
      then show ?thesis using i3 by simp
    qed
  qed
qed

lemma entries_ok_update_event: "update_event w s = Inr s1 \<Longrightarrow> entries_ok s \<Longrightarrow> entries_ok s1"
proof -
  assume a: "update_event w s = Inr s1" and i: "entries_ok s"
  have "s1 = s \<or> s1 = s\<lparr>listening := False\<rparr>
        \<or> completeLoading w (s\<lparr>listening := False\<rparr>) = Inr s1"
    using a by (auto simp: update_event_def updateThreadedLoad_def Let_def split: if_splits)
  moreover have "entries_ok (s\<lparr>listening := False\<rparr>)" using i by (simp add: entries_ok_def)
  ultimately show ?thesis using i entries_ok_completeLoading by auto
qed

lemma entries_ok_call_step:
  assumes "call_step w s c = Inr s1" and "entries_ok s"
  shows "entries_ok s1"
proof (cases c)
  case (LoadPattern prefix filetype startDigit endDigit numDigits)
  then have "map_sum id snd (loadSequence w s prefix filetype startDigit endDigit numDigits)
      = Inr s1"
    using assms(1) by simp
  from map_sum_snd_Inr [OF this] obtain ok where
    "loadSequence w s prefix filetype startDigit endDigit numDigits = Inr (ok, s1)" ..
  then show ?thesis by (rule entries_ok_loadSequence)
next
  case (LoadFolder folder)
  then have "map_sum id snd (loadSequence_folder w s folder) = Inr s1"
    using assms(1) by simp
  from map_sum_snd_Inr [OF this] obtain ok where
    "loadSequence_folder w s folder = Inr (ok, s1)" ..
  then show ?thesis by (rule entries_ok_loadSequence_folder)
next
  case Unload
  then have "unloadSequence w s = Inr s1" using assms(1) by simp
  then show ?thesis by (rule entries_ok_unloadSequence)
next
  case (SetFrame index)
  then have "setFrame w s index = Inr s1" using assms(1) by simp
  then show ?thesis using assms(2) by (rule entries_ok_setFrame)
next
  case (SetFrameAtPercent percent)
  then obtain index where "setFrame w s index = Inr s1"
    using assms(1) by (auto simp: setFrameAtPercent_def split: sum.splits)
  then show ?thesis using assms(2) by (rule entries_ok_setFrame)
next
  case PreloadAllFrames
  then have "preloadAllFrames w s = Inr s1" using assms(1) by simp
  then show ?thesis using assms(2) by (rule entries_ok_preloadAllFrames)
next
  case (SetMaxFrames n)
  then have "s1 = setMaxFrames s n" using assms(1) by simp
  then show ?thesis
    using assms(2) by (simp add: setMaxFrames_def Let_def entries_ok_def ofLogError_def)
next
  case (SetExtension ext)
  then have "s1 = setExtension s ext" using assms(1) by simp
  then show ?thesis using assms(2) by (simp add: setExtension_def entries_ok_def)
next
  case (EnableThreadedLoad enable)
  then have "s1 = enableThreadedLoad s enable" using assms(1) by simp
  then show ?thesis
    using assms(2) by (simp add: enableThreadedLoad_def Let_def entries_ok_def ofLogError_def)
next
  case CancelLoad
  then have "s1 = cancelLoad s" using assms(1) by simp
  then show ?thesis using assms(2) by (simp add: cancelLoad_def entries_ok_def)
next
  case (SetFrameRate rate)
  then have "s1 = setFrameRate s rate" using assms(1) by simp
  then show ?thesis using assms(2) by (simp add: setFrameRate_def entries_ok_def)
next
  case ThreadStep
  then have "thread_step w s = Inr s1" using assms(1) by simp
  then show ?thesis using assms(2) by (rule entries_ok_thread_step)
next
  case UpdateEvent
  then have "update_event w s = Inr s1" using assms(1) by simp
  then show ?thesis using assms(2) by (rule entries_ok_update_event)
qed

lemma run_entries_ok: "run w s cs = Inr s1 \<Longrightarrow> entries_ok s \<Longrightarrow> entries_ok s1"
proof (induction cs arbitrary: s)
  case Nil
  then show ?case by simp
next
  case (Cons c cs)
  then obtain s0 where a: "call_step w s c = Inr s0" and b: "run w s0 cs = Inr s1"
    by (auto split: sum.splits)
  show ?case using Cons.IH [OF b entries_ok_call_step [OF a Cons.prems(2)]] .
qed

text \<open>On such an object \<open>setFrame\<close> returns, at every index.\<close>

lemma setFrame_defined: "entries_ok s \<Longrightarrow> \<exists>s1. setFrame w s index = Inr s1"
proof -
  assume i: "entries_ok s"
  show ?thesis
  proof (cases "loaded s \<and> 0 \<le> index")
    case False
    then show ?thesis by (auto simp: setFrame_def)
  next
    case True
    let ?n = "getTotalFrames s"
    have n: "0 < ?n" using i True by (simp add: entries_ok_def getTotalFrames_def)
    have r: "c_rem index ?n = Inr (index mod ?n)" using True n by (simp add: c_rem_nonneg)
    have b: "0 \<le> index mod ?n" "index mod ?n < int (length (sequence s))"
      using n by (simp_all add: getTotalFrames_def)
    then have "nat (index mod ?n) < length (filenames s)" using i by (simp add: entries_ok_def)
    then have "\<exists>s0. loadFrame w s (index mod ?n) = Inr s0"
      using b by (simp add: loadFrame_def Let_def)
    then show ?thesis using True r by (auto simp: setFrame_def)
  qed
qed

lemma run_setFrame_defined:
  "run w constructor cs = Inr s \<Longrightarrow> \<exists>s1. setFrame w s index = Inr s1"
  using run_entries_ok [OF _ entries_ok_constructor] setFrame_defined by blast

text \<open>On a loaded object without entries it divides by zero at line 399.\<close>

lemma setFrame_divides_by_zero:
  "loaded s \<Longrightarrow> sequence s = [] \<Longrightarrow> 0 \<le> index \<Longrightarrow> setFrame w s index = Inl DivideByZero"
  by (simp add: setFrame_def c_rem_def getTotalFrames_def)

section \<open>The pattern load past the overflow\<close>

text \<open>
  By the standard the second load of this execution has no result, and the execution
  ends there.
\<close>

lemma inverted_reload_undefined:
  "run studio constructor
     [LoadPattern ''f'' ''png'' 1 3 3, LoadPattern ''f'' ''png'' 2147483647 (- 2147483648) 3,
      SetFrame 5] = Inl SignedOverflow"
  apply (simp add: f_loaded)
  apply (simp add: loadSequence_def unloadSequence_def waitForThread_idle constructor_def
      int32_def INT_MAX_def)
  done

lemma inverted_reload_result:
  "inverted_reload stale =
     Inr (True, constructor\<lparr>loaded := True, width := getWidthPx stale,
            height := getHeightPx stale, texture := Pixels 4 3 [], uploads := 1,
            errors := [(''ofxImageSequence::loadFrame'',
                        ''Calling a frame out of bounds: 0'')]\<rparr>)"
  apply (simp add: inverted_reload_def f_loaded)
  apply (simp add: loadSequence_wrapping_def wrap32_def unloadSequence_def waitForThread_idle
      constructor_def pattern_loop.simps loadFrame_def ofLogError_def Let_def
      show_int_def show_nat.simps digit_def)
  done

text \<open>
  Claim C10, at the execution where the code departs from it: three numbered frames are
  loaded, and then the range from \<open>INT_MAX\<close> to \<open>INT_MIN\<close> in the same object. In a build
  that wraps \<open>int\<close> around, \<open>numFiles\<close> is 2 and passes the test of line 81, the loop
  of line 92 does not run, and line 98 sets \<open>loaded\<close> with no entry: the call returns
  true, whatever \<open>sequence[0]\<close> reads. \<open>setFrame(5)\<close> then divides by zero at line 399.
\<close>

theorem loaded_without_entries_divides_by_zero:
  "\<exists>s. inverted_reload stale = Inr (True, s) \<and> reachable studio s
       \<and> loaded s \<and> sequence s = [] \<and> setFrame studio s 5 = Inl DivideByZero"
proof -
  let ?F = "projr (run studio constructor [LoadPattern ''f'' ''png'' 1 3 3])"
  obtain s where s: "inverted_reload stale = Inr (True, s)"
    and l: "loaded s" and e: "sequence s = []"
    unfolding inverted_reload_result by (simp add: constructor_def)
  have "run studio constructor [LoadPattern ''f'' ''png'' 1 3 3] = Inr ?F"
    by (simp add: f_loaded)
  then have f: "reachable studio ?F" by (rule run_reachable [OF reachable_constructor])
  have "reachable studio s"
    using reachable_wrapping [OF f _ _ _ s [unfolded inverted_reload_def]]
    by (simp add: int32_def INT_MAX_def)
  then show ?thesis using s l e setFrame_divides_by_zero [OF l e, of 5 studio] by simp
qed

section \<open>Cancelling a background load\<close>

lemma cancel_requested_result:
  "cancel_requested =
     Inr (constructor\<lparr>sequence := [Pixels 4 3 [], Unallocated],
            filenames := [''a.png'', ''b.png''], loading := True, useThread := True,
            cancelLoading := True, folderToLoad := ''clip'', listening := True,
            pc := Loop 1\<rparr>)"
  by (simp add: cancel_requested_def exec_defs waitForThread_idle studio_simps constructor_def)

lemma cancel_session_result:
  "cancel_session =
     Inr (constructor\<lparr>sequence := [Pixels 4 3 [], Unallocated],
            filenames := [''a.png'', ''b.png''], loaded := True, useThread := True,
            cancelLoading := True, lastFrameLoaded := 0, width := 4, height := 3,
            folderToLoad := ''clip'', texture := Pixels 4 3 [], uploads := 1\<rparr>)"
  by (simp add: cancel_session_def exec_defs waitForThread_idle studio_simps constructor_def)

text \<open>
  Claim C1 as stated fails: in \<open>cancel_session\<close> the cancellation is requested while
  the thread is loading and is honoured at the next test of the decoding loop, slot 1 being
  still undecoded. At the end the object is loaded, the pixels of slot 0 are retained,
  and \<open>width\<close> and \<open>height\<close> are set: \<open>completeLoading\<close> has run.
\<close>

theorem cancelled_load_completes_counterexample:
  "\<not> isl cancel_session \<and> isLoaded (projr cancel_session)
   \<and> \<not> isLoading (projr cancel_session)
   \<and> sequence (projr cancel_session) = [Pixels 4 3 [], Unallocated]
   \<and> width (projr cancel_session) = 4 \<and> height (projr cancel_session) = 3"
  unfolding cancel_session_result by (simp add: constructor_def isLoaded_def isLoading_def)

lemma cancel_honoured_thread_returns:
  assumes "cancelLoading s" and "useThread s"
    and "pc s = L195 \<or> (pc s = Loop i \<and> i < length (sequence s))"
  shows "run w s [ThreadStep, ThreadStep] =
           Inr (s\<lparr>loading := False,
                  cancelLoading := (if pc s = L195 then False else cancelLoading s),
                  pc := NotRunning\<rparr>)"
  using assms by (auto simp: thread_step_def)

text \<open>
  Claim C1, as amended. Let the thread be at a point where it tests the cancellation
  flag, line 195 or the head of an iteration of the decoding loop, with the flag set.
  Then its next two steps decode nothing and end it: it is not running, \<open>isLoading\<close> is
  false, and the file names and the pixel buffers are as they were. The sequence not
  being empty, the next update event returns with \<open>isLoaded\<close> true and \<open>isLoading\<close> false,
  every slot but slot 0 being as it was: \<open>completeLoading\<close> is called for the cancelled
  load.
\<close>

theorem cancel_honoured_then_completed:
  assumes "cancelLoading s" and "useThread s" and "listening s"
    and "sequence s \<noteq> []" and "length (filenames s) = length (sequence s)"
    and "pc s = L195 \<or> (pc s = Loop i \<and> i < length (sequence s))"
  shows "\<exists>s1 s2. run w s [ThreadStep, ThreadStep] = Inr s1
           \<and> pc s1 = NotRunning \<and> \<not> isLoading s1
           \<and> sequence s1 = sequence s \<and> filenames s1 = filenames s \<and> loaded s1 = loaded s
           \<and> update_event w s1 = Inr s2
           \<and> isLoaded s2 \<and> \<not> isLoading s2 \<and> pc s2 = NotRunning
           \<and> length (sequence s2) = length (sequence s)
           \<and> (\<forall>j < length (sequence s). 0 < j \<longrightarrow> sequence s2 ! j = sequence s ! j)
           \<and> (\<forall>j < length (sequence s). isAllocated (sequence s ! j) \<longrightarrow>
                  sequence s2 ! j = sequence s ! j)"
proof -
  define s1 where "s1 = s\<lparr>loading := False,
                  cancelLoading := (if pc s = L195 then False else cancelLoading s),
                  pc := NotRunning\<rparr>"
  have r: "run w s [ThreadStep, ThreadStep] = Inr s1"
    unfolding s1_def using cancel_honoured_thread_returns [OF assms(1,2,6)] .
  define s0 where "s0 = s1\<lparr>listening := False, loaded := True, lastFrameLoaded := - 1\<rparr>"
  have wf0: "0 < length (sequence s0)" "0 < length (filenames s0)"
    using assms(4,5) by (simp_all add: s0_def s1_def)
  have "\<exists>s3. loadFrame w s0 0 = Inr s3"
    using wf0 by (simp add: loadFrame_def Let_def)
  then obtain s3 where lf: "loadFrame w s0 0 = Inr s3" ..
  note k = loadFrame_keeps [OF lf]
  obtain p ps where sq: "sequence s3 = p # ps"
    using k(1) wf0(1) by (cases "sequence s3") auto
  define s2 where "s2 = s3\<lparr>width := getWidthPx p, height := getHeightPx p\<rparr>"
  have cl: "completeLoading w (s1\<lparr>listening := False\<rparr>) = Inr s2"
    using assms(4) lf sq by (simp add: completeLoading_def s0_def s1_def s2_def)
  have u: "update_event w s1 = Inr s2"
    using assms(3,4) cl by (simp add: update_event_def updateThreadedLoad_def Let_def s1_def)
  have slots: "sequence s3 = sequence s0
      \<or> sequence s3 = (sequence s0)[0 := snd (ofLoadImage w (sequence s0 ! 0) (filenames s0 ! 0))]
         \<and> \<not> isAllocated (sequence s0 ! 0)"
    using lf by (auto simp: loadFrame_def ofLogError_def Let_def split: if_splits)
  have s0s: "sequence s0 = sequence s" by (simp add: s0_def s1_def)
  have a: "sequence s2 ! j = sequence s ! j" if "0 < j" for j
    using slots that s0s by (auto simp: s2_def)
  have b: "sequence s2 ! j = sequence s ! j" if "isAllocated (sequence s ! j)" for j
    using slots that s0s by (cases "j = 0") (auto simp: s2_def)
  have c: "isLoaded s2 \<and> \<not> isLoading s2 \<and> pc s2 = NotRunning
           \<and> length (sequence s2) = length (sequence s)"
    using k by (simp add: s2_def s0_def s1_def isLoaded_def isLoading_def)
  have d: "pc s1 = NotRunning \<and> \<not> isLoading s1
           \<and> sequence s1 = sequence s \<and> filenames s1 = filenames s \<and> loaded s1 = loaded s"
    by (simp add: s1_def isLoading_def)
  show ?thesis using r u a b c d by blast
qed

theorem cancel_honoured_then_completed_witness:
  "cancelLoading (projr cancel_requested) \<and> useThread (projr cancel_requested)
   \<and> listening (projr cancel_requested) \<and> sequence (projr cancel_requested) \<noteq> []
   \<and> length (filenames (projr cancel_requested)) = length (sequence (projr cancel_requested))
   \<and> pc (projr cancel_requested) = Loop 1
   \<and> 1 < length (sequence (projr cancel_requested))
   \<and> \<not> isl (run studio (projr cancel_requested) [ThreadStep, ThreadStep])
   \<and> \<not> isLoading (projr (run studio (projr cancel_requested) [ThreadStep, ThreadStep]))
   \<and> \<not> isl (run studio (projr cancel_requested) [ThreadStep, ThreadStep, UpdateEvent])
   \<and> isLoaded (projr (run studio (projr cancel_requested) [ThreadStep, ThreadStep, UpdateEvent]))"
proof -
  define C where "C = projr cancel_requested"
  have C: "C = constructor\<lparr>sequence := [Pixels 4 3 [], Unallocated],
            filenames := [''a.png'', ''b.png''], loading := True, useThread := True,
            cancelLoading := True, folderToLoad := ''clip'', listening := True,
            pc := Loop 1\<rparr>"
    unfolding C_def cancel_requested_result by simp
  have h: "cancelLoading C" "useThread C" "listening C" "sequence C \<noteq> []"
    "length (filenames C) = length (sequence C)"
    "pc C = L195 \<or> (pc C = Loop 1 \<and> 1 < length (sequence C))"
    by (simp_all add: C)
  obtain s1 s2 where r: "run studio C [ThreadStep, ThreadStep] = Inr s1"
    and l1: "\<not> isLoading s1" and u: "update_event studio s1 = Inr s2" and l2: "isLoaded s2"
    using cancel_honoured_then_completed [OF h, of studio] by blast
  have r3: "run studio C [ThreadStep, ThreadStep, UpdateEvent] = Inr s2"
    using r u by (auto split: sum.splits)
  have p: "pc C = Loop 1" "1 < length (sequence C)" by (simp_all add: C)
  show ?thesis
    unfolding C_def [symmetric] using h(1-5) p r l1 r3 l2 by simp
qed

section \<open>Allocated slots come from files that decode\<close>

lemma decoded_ok_constructor: "decoded_ok w constructor"
  by (simp add: decoded_ok_def constructor_def)

lemma decoded_ok_same:
  "sequence s1 = sequence s \<Longrightarrow> filenames s1 = filenames s \<Longrightarrow>
     decoded_ok w s1 = decoded_ok w s"
  by (simp add: decoded_ok_def)

lemma decoded_ok_update:
  assumes "decoded_ok w s" and "filenames s1 = filenames s"
    and "sequence s1 = (sequence s)[i := snd (ofLoadImage w (sequence s ! i) (filenames s ! i))]"
  shows "decoded_ok w s1"
  unfolding decoded_ok_def
proof (intro allI impI)
  fix k
  assume k: "k < length (sequence s1)" and a: "isAllocated (sequence s1 ! k)"
  have ks: "k < length (sequence s)" using k assms(3) by simp
  show "decodeFile w (filenames s1 ! k) \<noteq> None"
  proof (cases "k = i")
    case True
    then have "isAllocated (snd (ofLoadImage w (sequence s ! i) (filenames s ! i)))"
      using a assms(3) ks by simp
    then have "isAllocated (sequence s ! i) \<or> decodeFile w (filenames s ! i) \<noteq> None"
      by (simp add: ofLoadImage_allocated_iff)
    then show ?thesis using assms(1,2) ks True by (auto simp: decoded_ok_def)
  next
    case False
    then have "sequence s1 ! k = sequence s ! k" using assms(3) by simp
    then show ?thesis using assms(1,2) a ks by (auto simp: decoded_ok_def)
  qed
qed

lemma decoded_ok_append:
  assumes "decoded_ok w s" and "length (filenames s) = length (sequence s)"
    and "sequence s1 = sequence s @ replicate n Unallocated"
    and "filenames s1 = filenames s @ names"
  shows "decoded_ok w s1"
  unfolding decoded_ok_def
proof (intro allI impI)
  fix k
  assume k: "k < length (sequence s1)" and a: "isAllocated (sequence s1 ! k)"
  have ks: "k < length (sequence s)"
  proof (rule ccontr)
    assume "\<not> k < length (sequence s)"
    then have "sequence s1 ! k = Unallocated"
      using k assms(3) by (simp add: nth_append)
    then show False using a by simp
  qed
  then have "sequence s1 ! k = sequence s ! k" "filenames s1 ! k = filenames s ! k"
    using assms(2,3,4) by (simp_all add: nth_append)
  then show "decodeFile w (filenames s1 ! k) \<noteq> None"
    using assms(1) a ks by (auto simp: decoded_ok_def)
qed

lemma decoded_ok_loadFrame:
  assumes "loadFrame w s i = Inr s1" and "decoded_ok w s"
  shows "decoded_ok w s1"
proof -
  have f: "filenames s1 = filenames s" using loadFrame_keeps(2) [OF assms(1)] .
  have "sequence s1 = sequence s
      \<or> sequence s1 = (sequence s)[nat i := snd (ofLoadImage w (sequence s ! nat i) (filenames s ! nat i))]"
    using assms(1) by (auto simp: loadFrame_def ofLogError_def Let_def split: if_splits)
  then show ?thesis
    using assms(2) f decoded_ok_same [of s1 s w] decoded_ok_update [of w s s1 "nat i"] by blast
qed

lemma setFrame_cases:
  assumes "setFrame w s i = Inr s1"
  shows "s1 = ofLogError ''ofxImageSequence::setFrame''
               ''Calling getFrame on unitialized image sequence.'' s
      \<or> s1 = ofLogError ''ofxImageSequence::setFrame'' ''Asking for negative index.'' s
      \<or> (\<exists>r s0. loadFrame w s r = Inr s0 \<and> s1 = s0\<lparr>currentFrame := r\<rparr>)"
  using assms by (auto simp: setFrame_def split: if_splits sum.splits)

lemma decoded_ok_setFrame:
  assumes "setFrame w s i = Inr s1" and "decoded_ok w s"
  shows "decoded_ok w s1"
  using setFrame_cases [OF assms(1)]
proof (elim disjE exE conjE)
  fix r s0
  assume lf: "loadFrame w s r = Inr s0" and s1: "s1 = s0\<lparr>currentFrame := r\<rparr>"
  have "decoded_ok w s0" using decoded_ok_loadFrame [OF lf assms(2)] .
  then show ?thesis using s1 by (simp add: decoded_ok_def)
qed (insert assms(2), simp_all add: decoded_ok_def ofLogError_def)

lemma decoded_ok_decode_slot:
  assumes "decode_slot w s i = Inr s1" and "decoded_ok w s"
  shows "decoded_ok w s1"
  using decoded_ok_update [OF assms(2) decode_slot_keeps(2) [OF assms(1)] decode_slot_slots(1) [OF assms(1)]] .

lemma decoded_ok_preloadAllFrames_loop:
  "preloadAllFrames_loop w s i = Inr s1 \<Longrightarrow> decoded_ok w s \<Longrightarrow> decoded_ok w s1"
proof (induction w s i arbitrary: s1 rule: preloadAllFrames_loop.induct)
  case (1 w s i)
  show ?case
  proof (cases "i < length (sequence s) \<and> \<not> (useThread s \<and> cancelLoading s)")
    case False
    then have "s1 = s"
      using "1.prems"(1) by (auto simp: preloadAllFrames_loop.simps [of w s i] split: if_splits)
    then show ?thesis using "1.prems"(2) by simp
  next
    case True
    then obtain s0 where d: "decode_slot w s i = Inr s0"
      and r: "preloadAllFrames_loop w s0 (i + 1) = Inr s1"
      using "1.prems"(1)
      by (auto simp: preloadAllFrames_loop.simps [of w s i] split: sum.splits)
    show ?thesis
      using "1.IH" [OF _ _ d r decoded_ok_decode_slot [OF d "1.prems"(2)]] True by blast
  qed
qed

lemma decoded_ok_preloadAllFrames:
  assumes "preloadAllFrames w s = Inr s1" and "decoded_ok w s"
  shows "decoded_ok w s1"
proof (cases "length (sequence s) = 0")
  case True
  then have "sequence s1 = sequence s" "filenames s1 = filenames s"
    using assms(1) by (auto simp: preloadAllFrames_def ofLogError_def)
  then show ?thesis using assms(2) decoded_ok_same by blast
next
  case False
  then have "preloadAllFrames_loop w s 0 = Inr s1"
    using assms(1) by (simp add: preloadAllFrames_def)
  then show ?thesis using assms(2) by (rule decoded_ok_preloadAllFrames_loop)
qed

lemma decoded_ok_preloadAllFilenames:
  assumes "preloadAllFilenames w s = (ok, s1)" and "decoded_ok w s"
    and "length (filenames s) = length (sequence s)"
  shows "decoded_ok w s1"
proof -
  have "(sequence s1 = sequence s \<and> filenames s1 = filenames s)
      \<or> (\<exists>n names. sequence s1 = sequence s @ replicate n Unallocated
                    \<and> filenames s1 = filenames s @ names)"
    using assms(1)
    by (auto simp: preloadAllFilenames_def ofLogError_def Let_def split: if_splits)
  then show ?thesis
    using assms(2,3) decoded_ok_same decoded_ok_append by blast
qed

lemma good_thread_step:
  assumes "thread_step w s = Inr s1" and "wellformed s" and "decoded_ok w s"
  shows "decoded_ok w s1"
proof (cases "pc s")
  case L190
  obtain ok s0 where p: "preloadAllFilenames w s = (ok, s0)" by (cases "preloadAllFilenames w s")
  have d0: "decoded_ok w s0"
    using decoded_ok_preloadAllFilenames [OF p assms(3)] assms(2) by (simp add: wellformed_def)
  have "s1 = s0\<lparr>loading := False, pc := NotRunning\<rparr> \<or> s1 = s0\<lparr>pc := L195\<rparr>"
    using assms(1) p L190 by (cases ok) (auto simp: thread_step_def)
  then show ?thesis using d0 by (auto simp: decoded_ok_def)
next
  case (Decode i)
  then obtain s0 where d: "decode_slot w s i = Inr s0" and s1: "s1 = s0\<lparr>pc := Loop (i + 1)\<rparr>"
    using assms(1) by (auto simp: thread_step_def split: sum.splits)
  show ?thesis using decoded_ok_decode_slot [OF d assms(3)] s1 by (simp add: decoded_ok_def)
qed (insert assms, auto simp: thread_step_def decoded_ok_def ofLogError_def split: if_splits)

lemma good_run_thread:
  "run_thread w n s = Inr s1 \<Longrightarrow> wellformed s \<Longrightarrow> decoded_ok w s \<Longrightarrow> decoded_ok w s1"
proof (induction n arbitrary: s)
  case 0
  then show ?case by simp
next
  case (Suc n)
  then obtain s0 where a: "thread_step w s = Inr s0" and b: "run_thread w n s0 = Inr s1"
    by (auto split: sum.splits)
  show ?case
    using Suc.IH [OF b wellformed_thread_step [OF a Suc.prems(2)]
                     good_thread_step [OF a Suc.prems(2,3)]] .
qed

lemma decoded_ok_unloadSequence: "unloadSequence w s = Inr s1 \<Longrightarrow> decoded_ok w s1"
  using unloadSequence_result(1) [of w s s1] by (simp add: decoded_ok_def)

lemma decoded_ok_completeLoading:
  assumes "completeLoading w s = Inr s1" and "decoded_ok w s"
  shows "decoded_ok w s1"
proof -
  have "(sequence s1 = sequence s \<and> filenames s1 = filenames s)
      \<or> (\<exists>s0. loadFrame w (s\<lparr>loaded := True, lastFrameLoaded := - 1\<rparr>) 0 = Inr s0
               \<and> sequence s1 = sequence s0 \<and> filenames s1 = filenames s0)"
    using assms(1)
    by (auto simp: completeLoading_def ofLogError_def split: if_splits sum.splits list.splits)
  moreover have "decoded_ok w (s\<lparr>loaded := True, lastFrameLoaded := - 1\<rparr>)"
    using assms(2) by (simp add: decoded_ok_def)
  ultimately show ?thesis
    using assms(2) decoded_ok_same decoded_ok_loadFrame by blast
qed

lemma decoded_ok_pattern_loop:
  "pattern_loop w prefix filetype numDigits s i endDigit = Inr s1 \<Longrightarrow>
     length (filenames s) = length (sequence s) \<Longrightarrow> decoded_ok w s \<Longrightarrow> decoded_ok w s1"
proof (induction w prefix filetype numDigits s i endDigit arbitrary: s1
       rule: pattern_loop.induct)
  case (1 w prefix filetype numDigits s i endDigit)
  show ?case
  proof (cases "i \<le> endDigit")
    case False
    then have "s1 = s"
      using "1.prems"(1)
      by (simp add: pattern_loop.simps [of w prefix filetype numDigits s i endDigit])
    then show ?thesis using "1.prems"(3) by simp
  next
    case True
    let ?s0 = "\<lambda>name. s\<lparr>filenames := filenames s @ [name],
                   sequence := sequence s @ [Unallocated]\<rparr>"
    obtain name where n: "imagename w prefix filetype numDigits i = Inr name"
      and m: "i \<noteq> INT_MAX"
      and r: "pattern_loop w prefix filetype numDigits (?s0 name) (i + 1) endDigit = Inr s1"
      using "1.prems"(1) True
      by (auto simp: pattern_loop.simps [of w prefix filetype numDigits s i endDigit]
          split: sum.splits if_splits)
    have d: "decoded_ok w (?s0 name)"
      using decoded_ok_append [OF "1.prems"(3,2), of "?s0 name" 1 "[name]"] by simp
    have l: "length (filenames (?s0 name)) = length (sequence (?s0 name))"
      using "1.prems"(2) by simp
    show ?thesis using "1.IH" [OF True n m r l d] .
  qed
qed

lemma decoded_ok_loadSequence:
  assumes "loadSequence w s prefix filetype startDigit endDigit numDigits = Inr (ok, s1)"
  shows "decoded_ok w s1"
proof -
  obtain s0 where u: "unloadSequence w s = Inr s0"
    using assms by (auto simp: loadSequence_def split: sum.splits)
  note d0 = decoded_ok_unloadSequence [OF u]
  have l0: "length (filenames s0) = length (sequence s0)"
    using wellformed_unloadSequence [OF u] by (simp add: wellformed_def)
  show ?thesis
  proof (cases "endDigit - startDigit + 1 \<le> 0")
    case True
    then have "s1 = ofLogError ''ofxImageSequence::loadSequence'' ''No image files found.'' s0"
      using assms u by (auto simp: loadSequence_def split: if_splits)
    then show ?thesis using d0 by (simp add: decoded_ok_def ofLogError_def)
  next
    case False
    then obtain s2 s3 p ps where
      pl: "pattern_loop w prefix filetype numDigits s0 startDigit endDigit = Inr s2"
      and lf: "loadFrame w (s2\<lparr>loaded := True, lastFrameLoaded := - 1\<rparr>) 0 = Inr s3"
      and s1: "s1 = s3\<lparr>width := getWidthPx p, height := getHeightPx p\<rparr>"
      using assms u
      by (auto simp: loadSequence_def Let_def split: sum.splits list.splits if_splits)
    have "decoded_ok w s2" using decoded_ok_pattern_loop [OF pl l0 d0] .
    then have "decoded_ok w (s2\<lparr>loaded := True, lastFrameLoaded := - 1\<rparr>)"
      by (simp add: decoded_ok_def)
    then have "decoded_ok w s3" using decoded_ok_loadFrame [OF lf] by simp
    then show ?thesis using s1 by (simp add: decoded_ok_def)
  qed
qed

lemma decoded_ok_loadSequence_wrapping:
  assumes "loadSequence_wrapping w s prefix filetype startDigit endDigit numDigits stale
             = Inr (ok, s1)"
  shows "decoded_ok w s1"
proof -
  from loadSequence_wrapping_cases [OF assms] obtain s0 where
    u: "unloadSequence w s = Inr s0"
    and c: "s1 = ofLogError ''ofxImageSequence::loadSequence'' ''No image files found.'' s0
         \<or> (\<exists>s2 s3 p.
              pattern_loop w prefix filetype numDigits s0 startDigit endDigit = Inr s2
              \<and> loadFrame w (s2\<lparr>loaded := True, lastFrameLoaded := - 1\<rparr>) 0 = Inr s3
              \<and> s1 = s3\<lparr>width := getWidthPx p, height := getHeightPx p\<rparr>)"
    by blast
  note d0 = decoded_ok_unloadSequence [OF u]
  have l0: "length (filenames s0) = length (sequence s0)"
    using wellformed_unloadSequence [OF u] by (simp add: wellformed_def)
  from c show ?thesis
  proof (elim disjE exE conjE)
    assume "s1 = ofLogError ''ofxImageSequence::loadSequence'' ''No image files found.'' s0"
    then show ?thesis using d0 by (simp add: decoded_ok_def ofLogError_def)
  next
    fix s2 s3 p
    assume pl: "pattern_loop w prefix filetype numDigits s0 startDigit endDigit = Inr s2"
      and lf: "loadFrame w (s2\<lparr>loaded := True, lastFrameLoaded := - 1\<rparr>) 0 = Inr s3"
      and s1: "s1 = s3\<lparr>width := getWidthPx p, height := getHeightPx p\<rparr>"
    have "decoded_ok w s2" using decoded_ok_pattern_loop [OF pl l0 d0] .
    then have "decoded_ok w (s2\<lparr>loaded := True, lastFrameLoaded := - 1\<rparr>)"
      by (simp add: decoded_ok_def)
    then have "decoded_ok w s3" using decoded_ok_loadFrame [OF lf] by simp
    then show ?thesis using s1 by (simp add: decoded_ok_def)
  qed
qed

lemma decoded_ok_loadSequence_folder:
  assumes "loadSequence_folder w s folder = Inr (ok, s1)"
  shows "decoded_ok w s1"
proof -
  obtain s0 where u: "unloadSequence w s = Inr s0"
    using assms by (auto simp: loadSequence_folder_def split: sum.splits)
  let ?s2 = "s0\<lparr>folderToLoad := folder\<rparr>"
  have d2: "decoded_ok w ?s2" using decoded_ok_unloadSequence [OF u] by (simp add: decoded_ok_def)
  have l2: "length (filenames ?s2) = length (sequence ?s2)"
    using wellformed_unloadSequence [OF u] by (simp add: wellformed_def)
  show ?thesis
  proof (cases "useThread ?s2")
    case True
    then have "s1 = ?s2\<lparr>pc := L185\<rparr>"
      using assms u by (auto simp: loadSequence_folder_def Let_def)
    then show ?thesis using d2 by (simp add: decoded_ok_def)
  next
    case False
    obtain b s3 where p: "preloadAllFilenames w ?s2 = (b, s3)"
      by (cases "preloadAllFilenames w ?s2")
    note d3 = decoded_ok_preloadAllFilenames [OF p d2 l2]
    show ?thesis
    proof (cases b)
      case True
      then have "completeLoading w s3 = Inr s1"
        using assms u False p by (auto simp: loadSequence_folder_def Let_def split: sum.splits)
      then show ?thesis using decoded_ok_completeLoading d3 by blast
    next
      case f: False
      then have "s1 = s3"
        using assms u False p by (auto simp: loadSequence_folder_def Let_def)
      then show ?thesis using d3 by simp
    qed
  qed
qed

lemma decoded_ok_update_event:
  assumes "update_event w s = Inr s1" and "decoded_ok w s"
  shows "decoded_ok w s1"
proof -
  have "s1 = s \<or> s1 = s\<lparr>listening := False\<rparr>
        \<or> completeLoading w (s\<lparr>listening := False\<rparr>) = Inr s1"
    using assms(1)
    by (auto simp: update_event_def updateThreadedLoad_def Let_def split: if_splits)
  moreover have "decoded_ok w (s\<lparr>listening := False\<rparr>)" using assms(2) by (simp add: decoded_ok_def)
  ultimately show ?thesis using assms(2) decoded_ok_completeLoading by auto
qed

lemma decoded_ok_call_step:
  assumes "call_step w s c = Inr s1" and "wellformed s" and "decoded_ok w s"
  shows "decoded_ok w s1"
proof (cases c)
  case (LoadPattern prefix filetype startDigit endDigit numDigits)
  then have "map_sum id snd (loadSequence w s prefix filetype startDigit endDigit numDigits)
      = Inr s1"
    using assms(1) by simp
  from map_sum_snd_Inr [OF this] obtain ok where
    "loadSequence w s prefix filetype startDigit endDigit numDigits = Inr (ok, s1)" ..
  then show ?thesis by (rule decoded_ok_loadSequence)
next
  case (LoadFolder folder)
  then have "map_sum id snd (loadSequence_folder w s folder) = Inr s1"
    using assms(1) by simp
  from map_sum_snd_Inr [OF this] obtain ok where
    "loadSequence_folder w s folder = Inr (ok, s1)" ..
  then show ?thesis by (rule decoded_ok_loadSequence_folder)
next
  case Unload
  then have "unloadSequence w s = Inr s1" using assms(1) by simp
  then show ?thesis by (rule decoded_ok_unloadSequence)
next
  case (SetFrame index)
  then have "setFrame w s index = Inr s1" using assms(1) by simp
  then show ?thesis using assms(3) by (rule decoded_ok_setFrame)
next
  case (SetFrameAtPercent percent)
  then obtain index where "setFrame w s index = Inr s1"
    using assms(1) by (auto simp: setFrameAtPercent_def split: sum.splits)
  then show ?thesis using assms(3) by (rule decoded_ok_setFrame)
next
  case PreloadAllFrames
  then have "preloadAllFrames w s = Inr s1" using assms(1) by simp
  then show ?thesis using assms(3) by (rule decoded_ok_preloadAllFrames)
next
  case (SetMaxFrames n)
  then have "s1 = setMaxFrames s n" using assms(1) by simp
  then show ?thesis
    using assms(3) by (simp add: setMaxFrames_def Let_def decoded_ok_def ofLogError_def)
next
  case (SetExtension ext)
  then have "s1 = setExtension s ext" using assms(1) by simp
  then show ?thesis using assms(3) by (simp add: setExtension_def decoded_ok_def)
next
  case (EnableThreadedLoad enable)
  then have "s1 = enableThreadedLoad s enable" using assms(1) by simp
  then show ?thesis
    using assms(3) by (simp add: enableThreadedLoad_def Let_def decoded_ok_def ofLogError_def)
next
  case CancelLoad
  then have "s1 = cancelLoad s" using assms(1) by simp
  then show ?thesis using assms(3) by (simp add: cancelLoad_def decoded_ok_def)
next
  case (SetFrameRate rate)
  then have "s1 = setFrameRate s rate" using assms(1) by simp
  then show ?thesis using assms(3) by (simp add: setFrameRate_def decoded_ok_def)
next
  case ThreadStep
  then have "thread_step w s = Inr s1" using assms(1) by simp
  then show ?thesis using assms(2,3) by (rule good_thread_step)
next
  case UpdateEvent
  then have "update_event w s = Inr s1" using assms(1) by simp
  then show ?thesis using assms(3) by (rule decoded_ok_update_event)
qed

lemma reachable_decoded_ok: "reachable w s \<Longrightarrow> decoded_ok w s"
proof (induction rule: reachable.induct)
  case reachable_constructor
  show ?case by (rule decoded_ok_constructor)
next
  case (reachable_step s c s1)
  show ?case
    using decoded_ok_call_step [OF reachable_step.hyps(2) reachable_wellformed [OF reachable_step.hyps(1)]
        reachable_step.IH] .
next
  case (reachable_wrapping s startDigit endDigit numDigits prefix filetype stale ok s1)
  show ?case using decoded_ok_loadSequence_wrapping [OF reachable_wrapping.hyps(5)] .
qed

text \<open>
  In a reachable state the hypotheses made on the two vectors for claim C7 hold by
  themselves: they are equally long, and a slot whose file does not decode is
  unallocated.
\<close>

lemma reachable_failed_decode_unallocated:
  assumes "reachable w s" and "k < length (sequence s)"
    and "decodeFile w (filenames s ! k) = None"
  shows "length (filenames s) = length (sequence s) \<and> \<not> isAllocated (sequence s ! k)"
  using reachable_wellformed [OF assms(1)] reachable_decoded_ok [OF assms(1)] assms(2,3)
  by (auto simp: wellformed_def decoded_ok_def)

section \<open>The numbered pattern: the names\<close>

text \<open>
  The names the loop of lines 92 to 96 resolves, for a prefix and a file type without
  per cent sign or NUL: one name for each index from \<open>startDigit\<close> to \<open>endDigit\<close>, in
  that order; an index that is not negative is padded with zeros to \<open>numDigits\<close>
  characters when \<open>numDigits\<close> is positive, and written as it is when \<open>numDigits\<close> is
  zero.
\<close>

lemma conversion_padding:
  "conversion 0 i = show_int i"
  "0 < numDigits \<Longrightarrow> 0 \<le> i \<Longrightarrow>
     conversion numDigits i =
       replicate (nat numDigits - length (show_nat (nat i))) CHR ''0'' @ show_nat (nat i)"
  by (simp_all add: conversion_def)

lemma pattern_loop_filenames:
  "pattern_loop w prefix filetype numDigits s i endDigit = Inr s1 \<Longrightarrow>
     plain prefix \<Longrightarrow> plain filetype \<Longrightarrow>
     filenames s1 =
       filenames s @ map (\<lambda>j. prefix @ conversion numDigits j @ ''.'' @ filetype) [i..endDigit]"
proof (induction w prefix filetype numDigits s i endDigit arbitrary: s1
       rule: pattern_loop.induct)
  case (1 w prefix filetype numDigits s i endDigit)
  show ?case
  proof (cases "i \<le> endDigit")
    case False
    then show ?thesis
      using "1.prems"(1)
      by (simp add: pattern_loop.simps [of w prefix filetype numDigits s i endDigit])
  next
    case True
    obtain name where n: "imagename w prefix filetype numDigits i = Inr name"
      and m: "i \<noteq> INT_MAX"
      and r: "pattern_loop w prefix filetype numDigits
                (s\<lparr>filenames := filenames s @ [name],
                   sequence := sequence s @ [Unallocated]\<rparr>) (i + 1) endDigit = Inr s1"
      using "1.prems"(1) True
      by (auto simp: pattern_loop.simps [of w prefix filetype numDigits s i endDigit]
          split: sum.splits if_splits)
    have nm: "name = prefix @ conversion numDigits i @ ''.'' @ filetype"
      using n "1.prems"(2,3) by (auto simp: imagename_def split: if_splits)
    have u: "[i..endDigit] = i # [i + 1..endDigit]" using True by (rule upto_rec1)
    show ?thesis
      using "1.IH" [OF True n m r "1.prems"(2,3)] nm u by simp
  qed
qed

lemma loadSequence_filenames:
  assumes "loadSequence w s prefix filetype startDigit endDigit numDigits = Inr (True, s1)"
    and "plain prefix" and "plain filetype"
  shows "filenames s1 =
           map (\<lambda>j. prefix @ conversion numDigits j @ ''.'' @ filetype) [startDigit..endDigit]"
proof -
  obtain s0 s2 s3 p ps where u: "unloadSequence w s = Inr s0"
    and pl: "pattern_loop w prefix filetype numDigits s0 startDigit endDigit = Inr s2"
    and lf: "loadFrame w (s2\<lparr>loaded := True, lastFrameLoaded := - 1\<rparr>) 0 = Inr s3"
    and s1: "s1 = s3\<lparr>width := getWidthPx p, height := getHeightPx p\<rparr>"
    using assms(1)
    by (auto simp: loadSequence_def Let_def split: sum.splits list.splits if_splits)
  have "filenames s0 = []" using unloadSequence_result(2) [OF u] .
  then have "filenames s2 =
           map (\<lambda>j. prefix @ conversion numDigits j @ ''.'' @ filetype) [startDigit..endDigit]"
    using pattern_loop_filenames [OF pl assms(2,3)] by simp
  then show ?thesis using loadFrame_keeps(2) [OF lf] s1 by simp
qed

section \<open>The object while the thread runs\<close>

lemma thread_ok_same:
  "pc s1 = pc s \<Longrightarrow> loading s1 = loading s \<Longrightarrow> listening s1 = listening s \<Longrightarrow>
     length (sequence s1) = length (sequence s) \<Longrightarrow> thread_ok s1 = thread_ok s"
  by (cases "pc s") (auto simp: thread_ok_def)

lemma thread_ok_idle: "pc s = NotRunning \<or> pc s = L185 \<Longrightarrow> thread_ok s"
  by (auto simp: thread_ok_def)

lemma thread_ok_loaded_while_idle:
  "thread_ok s \<Longrightarrow> \<not> loading s \<Longrightarrow> pc s = NotRunning \<or> pc s = L185"
  by (cases "pc s") (auto simp: thread_ok_def)

lemma thread_ok_thread_step:
  assumes "thread_step w s = Inr s1" and "thread_ok s"
  shows "thread_ok s1"
proof (cases "pc s")
  case L190
  obtain ok s0 where p: "preloadAllFilenames w s = (ok, s0)" by (cases "preloadAllFilenames w s")
  note k = preloadAllFilenames_keeps [OF p]
  show ?thesis
  proof (cases ok)
    case True
    then have "s1 = s0\<lparr>pc := L195\<rparr>" using assms(1) p L190 by (simp add: thread_step_def)
    then show ?thesis using k(6,8,12) True assms(2) L190 by (simp add: thread_ok_def)
  next
    case False
    then have "s1 = s0\<lparr>loading := False, pc := NotRunning\<rparr>"
      using assms(1) p L190 by (simp add: thread_step_def)
    then show ?thesis by (simp add: thread_ok_def)
  qed
next
  case (Decode i)
  then obtain s0 where d: "decode_slot w s i = Inr s0" and s1: "s1 = s0\<lparr>pc := Loop (i + 1)\<rparr>"
    using assms(1) by (auto simp: thread_step_def split: sum.splits)
  note k = decode_slot_keeps [OF d]
  have "sequence s0 \<noteq> []" using k(1) assms(2) Decode by (auto simp: thread_ok_def)
  then show ?thesis using s1 k(8,11) assms(2) Decode by (simp add: thread_ok_def)
qed (insert assms, auto simp: thread_step_def thread_ok_def ofLogError_def split: if_splits)

lemma completeLoading_keeps:
  assumes "completeLoading w s = Inr s1"
  shows "pc s1 = pc s" and "loading s1 = loading s" and "listening s1 = listening s"
    and "length (sequence s1) = length (sequence s)"
proof -
  have "s1 = ofLogError ''ofxImageSequence::completeLoading''
               ''load failed with empty image sequence'' s
      \<or> (\<exists>s0 p. loadFrame w (s\<lparr>loaded := True, lastFrameLoaded := - 1\<rparr>) 0 = Inr s0
               \<and> s1 = s0\<lparr>width := getWidthPx p, height := getHeightPx p\<rparr>)"
    using assms by (auto simp: completeLoading_def split: if_splits sum.splits list.splits)
  then show "pc s1 = pc s" and "loading s1 = loading s" and "listening s1 = listening s"
    and "length (sequence s1) = length (sequence s)"
    by (auto simp: ofLogError_def dest: loadFrame_keeps)
qed

lemma thread_ok_loadSequence:
  assumes "loadSequence w s prefix filetype startDigit endDigit numDigits = Inr (ok, s1)"
  shows "thread_ok s1"
proof -
  obtain s0 where u: "unloadSequence w s = Inr s0"
    using assms by (auto simp: loadSequence_def split: sum.splits)
  obtain sw where w: "waitForThread w s = Inr sw" and s0: "pc s0 = pc sw"
    using u by (auto simp: unloadSequence_def split: sum.splits)
  have p0: "pc s0 = NotRunning" using waitForThread_joins [OF w] s0 by simp
  have "pc s1 = pc s0"
  proof (cases "endDigit - startDigit + 1 \<le> 0")
    case True
    then have "s1 = ofLogError ''ofxImageSequence::loadSequence'' ''No image files found.'' s0"
      using assms u by (auto simp: loadSequence_def split: if_splits)
    then show ?thesis by (simp add: ofLogError_def)
  next
    case False
    then obtain s2 s3 p ps where
      pl: "pattern_loop w prefix filetype numDigits s0 startDigit endDigit = Inr s2"
      and lf: "loadFrame w (s2\<lparr>loaded := True, lastFrameLoaded := - 1\<rparr>) 0 = Inr s3"
      and s1: "s1 = s3\<lparr>width := getWidthPx p, height := getHeightPx p\<rparr>"
      using assms u
      by (auto simp: loadSequence_def Let_def split: sum.splits list.splits if_splits)
    show ?thesis using pattern_loop_keeps [OF pl] loadFrame_keeps(7) [OF lf] s1 by simp
  qed
  then show ?thesis using p0 thread_ok_idle by simp
qed

lemma thread_ok_loadSequence_wrapping:
  assumes "loadSequence_wrapping w s prefix filetype startDigit endDigit numDigits stale
             = Inr (ok, s1)"
  shows "thread_ok s1"
proof -
  from loadSequence_wrapping_cases [OF assms] obtain s0 where
    u: "unloadSequence w s = Inr s0"
    and c: "s1 = ofLogError ''ofxImageSequence::loadSequence'' ''No image files found.'' s0
         \<or> (\<exists>s2 s3 p.
              pattern_loop w prefix filetype numDigits s0 startDigit endDigit = Inr s2
              \<and> loadFrame w (s2\<lparr>loaded := True, lastFrameLoaded := - 1\<rparr>) 0 = Inr s3
              \<and> s1 = s3\<lparr>width := getWidthPx p, height := getHeightPx p\<rparr>)"
    by blast
  obtain sw where w: "waitForThread w s = Inr sw" and s0: "pc s0 = pc sw"
    using u by (auto simp: unloadSequence_def split: sum.splits)
  have p0: "pc s0 = NotRunning" using waitForThread_joins [OF w] s0 by simp
  from c have "pc s1 = pc s0"
  proof (elim disjE exE conjE)
    assume "s1 = ofLogError ''ofxImageSequence::loadSequence'' ''No image files found.'' s0"
    then show ?thesis by (simp add: ofLogError_def)
  next
    fix s2 s3 p
    assume pl: "pattern_loop w prefix filetype numDigits s0 startDigit endDigit = Inr s2"
      and lf: "loadFrame w (s2\<lparr>loaded := True, lastFrameLoaded := - 1\<rparr>) 0 = Inr s3"
      and s1: "s1 = s3\<lparr>width := getWidthPx p, height := getHeightPx p\<rparr>"
    show ?thesis using pattern_loop_keeps [OF pl] loadFrame_keeps(7) [OF lf] s1 by simp
  qed
  then show ?thesis using p0 thread_ok_idle by simp
qed

lemma thread_ok_loadSequence_folder:
  assumes "loadSequence_folder w s folder = Inr (ok, s1)"
  shows "thread_ok s1"
proof -
  obtain s0 where u: "unloadSequence w s = Inr s0"
    using assms by (auto simp: loadSequence_folder_def split: sum.splits)
  obtain sw where w: "waitForThread w s = Inr sw" and s0: "pc s0 = pc sw"
    using u by (auto simp: unloadSequence_def split: sum.splits)
  have p0: "pc s0 = NotRunning" using waitForThread_joins [OF w] s0 by simp
  let ?s2 = "s0\<lparr>folderToLoad := folder\<rparr>"
  have "pc s1 = NotRunning \<or> pc s1 = L185"
  proof (cases "useThread ?s2")
    case True
    then have "s1 = ?s2\<lparr>pc := L185\<rparr>"
      using assms u by (auto simp: loadSequence_folder_def Let_def)
    then show ?thesis by simp
  next
    case False
    obtain b s3 where p: "preloadAllFilenames w ?s2 = (b, s3)"
      by (cases "preloadAllFilenames w ?s2")
    have p3: "pc s3 = NotRunning" using preloadAllFilenames_keeps(5) [OF p] p0 by simp
    show ?thesis
    proof (cases b)
      case True
      then have "completeLoading w s3 = Inr s1"
        using assms u False p by (auto simp: loadSequence_folder_def Let_def split: sum.splits)
      then show ?thesis using completeLoading_keeps(1) p3 by simp
    next
      case f: False
      then have "s1 = s3"
        using assms u False p by (auto simp: loadSequence_folder_def Let_def)
      then show ?thesis using p3 by simp
    qed
  qed
  then show ?thesis by (rule thread_ok_idle)
qed

lemma thread_ok_unloadSequence: "unloadSequence w s = Inr s1 \<Longrightarrow> thread_ok s1"
proof -
  assume u: "unloadSequence w s = Inr s1"
  obtain sw where w: "waitForThread w s = Inr sw" and s1: "pc s1 = pc sw"
    using u by (auto simp: unloadSequence_def split: sum.splits)
  show ?thesis using waitForThread_joins [OF w] s1 thread_ok_idle by simp
qed

lemma thread_ok_update_event:
  assumes "update_event w s = Inr s1" and "thread_ok s"
  shows "thread_ok s1"
proof (cases "listening s \<and> \<not> loading s")
  case False
  then have "s1 = s"
    using assms(1)
    by (auto simp: update_event_def updateThreadedLoad_def Let_def split: if_splits)
  then show ?thesis using assms(2) by simp
next
  case True
  then have idle: "pc s = NotRunning \<or> pc s = L185"
    using thread_ok_loaded_while_idle [OF assms(2)] by simp
  have "s1 = s\<lparr>listening := False\<rparr> \<or> completeLoading w (s\<lparr>listening := False\<rparr>) = Inr s1"
    using assms(1) True
    by (auto simp: update_event_def updateThreadedLoad_def Let_def split: if_splits)
  then have "pc s1 = pc s" using completeLoading_keeps(1) by auto
  then show ?thesis using idle thread_ok_idle by simp
qed

lemma thread_ok_call_step:
  assumes "call_step w s c = Inr s1" and "thread_ok s"
  shows "thread_ok s1"
proof (cases c)
  case (LoadPattern prefix filetype startDigit endDigit numDigits)
  then have "map_sum id snd (loadSequence w s prefix filetype startDigit endDigit numDigits)
      = Inr s1"
    using assms(1) by simp
  from map_sum_snd_Inr [OF this] obtain ok where
    "loadSequence w s prefix filetype startDigit endDigit numDigits = Inr (ok, s1)" ..
  then show ?thesis by (rule thread_ok_loadSequence)
next
  case (LoadFolder folder)
  then have "map_sum id snd (loadSequence_folder w s folder) = Inr s1"
    using assms(1) by simp
  from map_sum_snd_Inr [OF this] obtain ok where
    "loadSequence_folder w s folder = Inr (ok, s1)" ..
  then show ?thesis by (rule thread_ok_loadSequence_folder)
next
  case Unload
  then have "unloadSequence w s = Inr s1" using assms(1) by simp
  then show ?thesis by (rule thread_ok_unloadSequence)
next
  case (SetFrame index)
  then have a: "setFrame w s index = Inr s1" using assms(1) by simp
  show ?thesis using thread_ok_same [OF setFrame_keeps(6,7,10,1) [OF a]] assms(2) by simp
next
  case (SetFrameAtPercent percent)
  then obtain index where a: "setFrame w s index = Inr s1"
    using assms(1) by (auto simp: setFrameAtPercent_def split: sum.splits)
  show ?thesis using thread_ok_same [OF setFrame_keeps(6,7,10,1) [OF a]] assms(2) by simp
next
  case PreloadAllFrames
  then have "preloadAllFrames w s = Inr s1" using assms(1) by simp
  then show ?thesis
    using preloadAllFrames_keeps [of w s s1] thread_ok_same [of s1 s] assms(2) by simp
next
  case (SetMaxFrames n)
  then have "s1 = setMaxFrames s n" using assms(1) by simp
  then show ?thesis
    using thread_ok_same [of s1 s] assms(2) by (simp add: setMaxFrames_def Let_def ofLogError_def)
next
  case (SetExtension ext)
  then have "s1 = setExtension s ext" using assms(1) by simp
  then show ?thesis using thread_ok_same [of s1 s] assms(2) by (simp add: setExtension_def)
next
  case (EnableThreadedLoad enable)
  then have "s1 = enableThreadedLoad s enable" using assms(1) by simp
  then show ?thesis
    using thread_ok_same [of s1 s] assms(2)
    by (simp add: enableThreadedLoad_def Let_def ofLogError_def)
next
  case CancelLoad
  then have "s1 = cancelLoad s" using assms(1) by simp
  then show ?thesis using thread_ok_same [of s1 s] assms(2) by (simp add: cancelLoad_def)
next
  case (SetFrameRate rate)
  then have "s1 = setFrameRate s rate" using assms(1) by simp
  then show ?thesis using thread_ok_same [of s1 s] assms(2) by (simp add: setFrameRate_def)
next
  case ThreadStep
  then have "thread_step w s = Inr s1" using assms(1) by simp
  then show ?thesis using assms(2) by (rule thread_ok_thread_step)
next
  case UpdateEvent
  then have "update_event w s = Inr s1" using assms(1) by simp
  then show ?thesis using assms(2) by (rule thread_ok_update_event)
qed

lemma reachable_thread_ok: "reachable w s \<Longrightarrow> thread_ok s"
proof (induction rule: reachable.induct)
  case reachable_constructor
  show ?case by (simp add: thread_ok_def constructor_def)
next
  case (reachable_step s c s1)
  show ?case using thread_ok_call_step [OF reachable_step.hyps(2) reachable_step.IH] .
next
  case (reachable_wrapping s startDigit endDigit numDigits prefix filetype stale ok s1)
  show ?case using thread_ok_loadSequence_wrapping [OF reachable_wrapping.hyps(5)] .
qed

text \<open>
  In a reachable state with the thread at one of its two tests of the cancellation flag,
  the hypotheses made for claim C1 on the listener and on the two vectors hold by
  themselves.
\<close>

lemma reachable_at_cancellation_test:
  assumes "reachable w s" and "pc s = L195 \<or> pc s = Loop i"
  shows "loading s \<and> listening s \<and> sequence s \<noteq> []
         \<and> length (filenames s) = length (sequence s)"
  using reachable_thread_ok [OF assms(1)] reachable_wellformed [OF assms(1)] assms(2)
  by (auto simp: thread_ok_def wellformed_def)

end
